theory Spec2Isabelle
  imports Complex_Main
begin

section \<open>Double-precision values and their arithmetic\<close>

text \<open>
  Every number of \<^verbatim>\<open>main.cpp\<close> is a C++ \<^verbatim>\<open>double\<close>. A double is a finite number,
  one of the two infinities, or not-a-number. The sign of a zero is not kept: both zeros
  are \<open>Fin 0\<close>, they compare equal in C++ as well.

  Each arithmetic operation on finite operands takes the exact real result and rounds it,
  every operation on its own (no fused multiply-add, no wider intermediate format).
  The rounding is a parameter of every operation, so that the same embedding of the code
  can be read in two arithmetics:
  \<^item> \<open>binary64\<close>: round to nearest, ties to even, 53 significant bits, exponent range of
    IEEE 754 double precision. This is the arithmetic of the compiled program. A finite
    value \<open>Fin x\<close> is a double when \<open>binary64 x = Fin x\<close>.
  \<^item> \<open>exact\<close>: no rounding at all. This is the arithmetic in which the formulas of the
    specification are written.
  The special values follow IEEE 754 in both: a division by zero gives an infinity, and
  \<open>\<infinity> - \<infinity>\<close>, \<open>0 * \<infinity>\<close>, \<open>0 / 0\<close> and \<open>\<infinity> / \<infinity>\<close> give NaN.
\<close>

datatype double = Fin real | PInf | NInf | NaN

type_synonym rounding = "real \<Rightarrow> double"

definition exact :: rounding where
  "exact x = Fin x"

text \<open>Round a real to the nearest integer, a tie to the even neighbour.\<close>

definition rne :: "real \<Rightarrow> int" where
  "rne q = (let f = \<lfloor>q\<rfloor>; r = q - of_int f in
            if r < 1/2 then f
            else if 1/2 < r then f + 1
            else if even f then f else f + 1)"

text \<open>
  The exponent of the unit in the last place of a non-zero real: 52 below the exponent of
  its leading bit, and not below the subnormal exponent -1074.
\<close>

definition ulp_exp :: "real \<Rightarrow> int" where
  "ulp_exp x = max (\<lfloor>log 2 \<bar>x\<bar>\<rfloor> - 52) (- 1074)"

definition round_fin :: "real \<Rightarrow> real" where
  "round_fin x = (if x = 0 then 0
                  else of_int (rne (x / 2 powi ulp_exp x)) * 2 powi ulp_exp x)"

definition binary64 :: rounding where
  "binary64 x = (if 2 ^ 1024 \<le> \<bar>round_fin x\<bar> then (if 0 < x then PInf else NInf)
                 else Fin (round_fin x))"

fun is_finite :: "double \<Rightarrow> bool" where
  "is_finite (Fin a) = True"
| "is_finite x = False"

fun fadd :: "rounding \<Rightarrow> double \<Rightarrow> double \<Rightarrow> double" where
  "fadd rnd (Fin a) (Fin b) = rnd (a + b)"
| "fadd rnd NaN y = NaN"
| "fadd rnd x NaN = NaN"
| "fadd rnd PInf NInf = NaN"
| "fadd rnd NInf PInf = NaN"
| "fadd rnd PInf y = PInf"
| "fadd rnd x PInf = PInf"
| "fadd rnd NInf y = NInf"
| "fadd rnd x NInf = NInf"

fun fmul :: "rounding \<Rightarrow> double \<Rightarrow> double \<Rightarrow> double" where
  "fmul rnd (Fin a) (Fin b) = rnd (a * b)"
| "fmul rnd NaN y = NaN"
| "fmul rnd x NaN = NaN"
| "fmul rnd (Fin a) PInf = (if a = 0 then NaN else if 0 < a then PInf else NInf)"
| "fmul rnd (Fin a) NInf = (if a = 0 then NaN else if 0 < a then NInf else PInf)"
| "fmul rnd PInf (Fin b) = (if b = 0 then NaN else if 0 < b then PInf else NInf)"
| "fmul rnd NInf (Fin b) = (if b = 0 then NaN else if 0 < b then NInf else PInf)"
| "fmul rnd PInf PInf = PInf"
| "fmul rnd PInf NInf = NInf"
| "fmul rnd NInf PInf = NInf"
| "fmul rnd NInf NInf = PInf"

text \<open>
  Division by a zero gives an infinity (or NaN for 0/0) and raises nothing. The zero
  divisor is taken as +0: the only divisor of the program that can be zero is
  \<^verbatim>\<open>re + state.vertPos\<close>, and a sum of two non-zero doubles that is zero is +0.
\<close>

fun fdiv :: "rounding \<Rightarrow> double \<Rightarrow> double \<Rightarrow> double" where
  "fdiv rnd (Fin a) (Fin b) =
     (if b = 0 then (if a = 0 then NaN else if 0 < a then PInf else NInf)
      else rnd (a / b))"
| "fdiv rnd NaN y = NaN"
| "fdiv rnd x NaN = NaN"
| "fdiv rnd (Fin a) PInf = Fin 0"
| "fdiv rnd (Fin a) NInf = Fin 0"
| "fdiv rnd PInf (Fin b) = (if 0 \<le> b then PInf else NInf)"
| "fdiv rnd NInf (Fin b) = (if 0 \<le> b then NInf else PInf)"
| "fdiv rnd x y = NaN"

text \<open>The comparisons \<^verbatim>\<open><\<close> and \<^verbatim>\<open>>=\<close> of C++: false as soon as one side is NaN.\<close>

fun fless :: "double \<Rightarrow> double \<Rightarrow> bool" where
  "fless (Fin a) (Fin b) = (a < b)"
| "fless NaN y = False"
| "fless x NaN = False"
| "fless x NInf = False"
| "fless NInf y = True"
| "fless PInf y = False"
| "fless x PInf = True"

fun fge :: "double \<Rightarrow> double \<Rightarrow> bool" where
  "fge (Fin a) (Fin b) = (b \<le> a)"
| "fge NaN y = False"
| "fge x NaN = False"
| "fge x NInf = True"
| "fge NInf y = False"
| "fge PInf y = True"
| "fge x PInf = False"

text \<open>
  \<^verbatim>\<open>sin\<close> and \<^verbatim>\<open>cos\<close> of \<^verbatim>\<open><cmath>\<close>, taken as the rounded value of the real function;
  of an infinity or NaN they are NaN.
\<close>

fun fsin :: "rounding \<Rightarrow> double \<Rightarrow> double" where
  "fsin rnd (Fin a) = rnd (sin a)"
| "fsin rnd x = NaN"

fun fcos :: "rounding \<Rightarrow> double \<Rightarrow> double" where
  "fcos rnd (Fin a) = rnd (cos a)"
| "fcos rnd x = NaN"


section \<open>Constants and data of \<^verbatim>\<open>main.cpp\<close>\<close>

text \<open>
  A decimal literal denotes the double nearest to it; the integer-valued literals
  (\<^verbatim>\<open>6371000.0\<close>, \<^verbatim>\<open>0.0\<close>, \<^verbatim>\<open>2.\<close>, \<^verbatim>\<open>6.\<close>, \<^verbatim>\<open>180.0\<close>, \<^verbatim>\<open>90.0\<close>) are doubles as they
  stand.
\<close>

definition g :: "rounding \<Rightarrow> double" where
  "g rnd = rnd (- 9.80665)"

definition re :: double where
  "re = Fin 6371000"

definition a :: double where
  "a = Fin 0"

definition pi_lit :: "rounding \<Rightarrow> double" where
  "pi_lit rnd = rnd 3.14159265358979323846"

definition deg2rad :: "rounding \<Rightarrow> double" where
  "deg2rad rnd = fdiv rnd (pi_lit rnd) (Fin 180)"

record State =
  vertPos :: double
  horzPos :: double
  vertVel :: double
  horzVel :: double

text \<open>
  The velocity fields of \<^verbatim>\<open>Derivative\<close> carry a prime here, the record \<open>State\<close> has
  fields of the same names.
\<close>

record Derivative =
  vertVel' :: double
  horzVel' :: double
  vertAcc :: double
  horzAcc :: double


section \<open>The physics model and the integrator\<close>

definition computeVertAcc :: "rounding \<Rightarrow> State \<Rightarrow> double" where
  "computeVertAcc rnd state =
     fmul rnd (fmul rnd (g rnd) (fdiv rnd re (fadd rnd re (vertPos state))))
              (fdiv rnd re (fadd rnd re (vertPos state)))"

definition computeHorzAcc :: "State \<Rightarrow> double" where
  "computeHorzAcc state = a"

text \<open>The one-argument overload of \<^verbatim>\<open>evaluate\<close>.\<close>

definition evaluate :: "rounding \<Rightarrow> State \<Rightarrow> Derivative" where
  "evaluate rnd p =
     \<lparr> vertVel' = vertVel p,
       horzVel' = horzVel p,
       vertAcc = computeVertAcc rnd p,
       horzAcc = computeHorzAcc p \<rparr>"

text \<open>The three-argument overload of \<^verbatim>\<open>evaluate\<close>.\<close>

definition evaluateAt :: "rounding \<Rightarrow> State \<Rightarrow> double \<Rightarrow> Derivative \<Rightarrow> Derivative" where
  "evaluateAt rnd initP deltaTime pPrime =
     (let p = \<lparr> vertPos = fadd rnd (vertPos initP) (fmul rnd (vertVel' pPrime) deltaTime),
                horzPos = fadd rnd (horzPos initP) (fmul rnd (horzVel' pPrime) deltaTime),
                vertVel = fadd rnd (vertVel initP) (fmul rnd (vertAcc pPrime) deltaTime),
                horzVel = fadd rnd (horzVel initP) (fmul rnd (horzAcc pPrime) deltaTime) \<rparr>
      in \<lparr> vertVel' = vertVel p,
           horzVel' = horzVel p,
           vertAcc = computeVertAcc rnd p,
           horzAcc = computeHorzAcc p \<rparr>)"

text \<open>
  The weighted sum of \<^verbatim>\<open>rk4\<close>, in the order the source evaluates it:
  \<^verbatim>\<open>(k1 + 2. * (k2 + k3) + k4) / 6.\<close>
\<close>

definition rk4_avg :: "rounding \<Rightarrow> double \<Rightarrow> double \<Rightarrow> double \<Rightarrow> double \<Rightarrow> double" where
  "rk4_avg rnd c1 c2 c3 c4 =
     fdiv rnd (fadd rnd (fadd rnd c1 (fmul rnd (Fin 2) (fadd rnd c2 c3))) c4) (Fin 6)"

definition rk4 :: "rounding \<Rightarrow> State \<Rightarrow> double \<Rightarrow> State" where
  "rk4 rnd state deltaTime =
     (let k1 = evaluate rnd state;
          k2 = evaluateAt rnd state (fdiv rnd deltaTime (Fin 2)) k1;
          k3 = evaluateAt rnd state (fdiv rnd deltaTime (Fin 2)) k2;
          k4 = evaluateAt rnd state deltaTime k3;
          deltaVertVel = rk4_avg rnd (vertVel' k1) (vertVel' k2) (vertVel' k3) (vertVel' k4);
          deltaVertAcc = rk4_avg rnd (vertAcc k1) (vertAcc k2) (vertAcc k3) (vertAcc k4);
          deltaHorzVel = rk4_avg rnd (horzVel' k1) (horzVel' k2) (horzVel' k3) (horzVel' k4);
          deltaHorzAcc = rk4_avg rnd (horzAcc k1) (horzAcc k2) (horzAcc k3) (horzAcc k4)
      in \<lparr> vertPos = fadd rnd (vertPos state) (fmul rnd deltaVertVel deltaTime),
           horzPos = fadd rnd (horzPos state) (fmul rnd deltaHorzVel deltaTime),
           vertVel = fadd rnd (vertVel state) (fmul rnd deltaVertAcc deltaTime),
           horzVel = fadd rnd (horzVel state) (fmul rnd deltaHorzAcc deltaTime) \<rparr>)"


section \<open>The program \<^verbatim>\<open>main\<close>: input, initial state, driving loop\<close>

record Params =
  initAlt :: double
  initVel :: double
  firingAngle :: double
  deltaTime :: double
  finalTime :: double

text \<open>
  The input of \<^verbatim>\<open>main\<close>: \<open>argv\<close> is the list of the doubles that \<^verbatim>\<open>strtod\<close> returns for
  \<^verbatim>\<open>argv[1]\<close>, \<^verbatim>\<open>argv[2]\<close>, ... (so \<^verbatim>\<open>argc\<close> is its length plus one; \<^verbatim>\<open>strtod\<close> returns 0
  for a text that is no number and accepts \<^verbatim>\<open>inf\<close> and \<^verbatim>\<open>nan\<close>), and \<open>cin\<close> is the list
  of the outcomes of the successive extractions \<^verbatim>\<open>cin >> x\<close>: \<open>Some x\<close> when a finite
  number was read, \<open>None\<close> when the extraction failed.

  One prompting loop of \<^verbatim>\<open>main\<close>: read, and read again while the extraction failed or
  the value is rejected. When the input is exhausted every further extraction fails and
  the loop never ends: \<open>None\<close>.
\<close>

fun prompt :: "(double \<Rightarrow> bool) \<Rightarrow> real option list \<Rightarrow> (double \<times> real option list) option" where
  "prompt rejected [] = None"
| "prompt rejected (None # rest) = prompt rejected rest"
| "prompt rejected (Some x # rest) =
     (if rejected (Fin x) then prompt rejected rest else Some (Fin x, rest))"

definition acquire :: "double list \<Rightarrow> real option list \<Rightarrow> Params option" where
  "acquire argv cin =
     (if length argv + 1 \<noteq> 6 then
        (case prompt (\<lambda>x. False) cin of None \<Rightarrow> None | Some (alt, cin1) \<Rightarrow>
         (case prompt (\<lambda>x. fless x (Fin 0) \<or> fless (Fin 90) x) cin1 of
            None \<Rightarrow> None | Some (ang, cin2) \<Rightarrow>
          (case prompt (\<lambda>x. False) cin2 of None \<Rightarrow> None | Some (vel, cin3) \<Rightarrow>
           (case prompt (\<lambda>x. fless x (Fin 0)) cin3 of None \<Rightarrow> None | Some (dt, cin4) \<Rightarrow>
            (case prompt (\<lambda>x. fless x (Fin 0)) cin4 of None \<Rightarrow> None | Some (ft, cin5) \<Rightarrow>
               Some \<lparr> initAlt = alt, initVel = vel, firingAngle = ang,
                      deltaTime = dt, finalTime = ft \<rparr>)))))
      else
        Some \<lparr> initAlt = argv ! 0, initVel = argv ! 1, firingAngle = argv ! 2,
               deltaTime = argv ! 3, finalTime = argv ! 4 \<rparr>)"

text \<open>The state \<^verbatim>\<open>p\<close> that \<^verbatim>\<open>main\<close> builds before the loop (lines 135 to 141).\<close>

definition init_state :: "rounding \<Rightarrow> Params \<Rightarrow> State" where
  "init_state rnd ps =
     (let angle = fmul rnd (firingAngle ps) (deg2rad rnd)
      in \<lparr> vertPos = initAlt ps,
           horzPos = Fin 0,
           vertVel = fmul rnd (initVel ps) (fsin rnd angle),
           horzVel = fmul rnd (initVel ps) (fcos rnd angle) \<rparr>)"

text \<open>
  The loop test of line 148, and the loop. The loop need not end (a time step of 0 never
  advances the time), so it runs on fuel: \<open>None\<close> when the fuel is used up before the test
  fails. The result lists what each iteration prints: the time and the state after
  each call of \<^verbatim>\<open>rk4\<close>.
\<close>

definition continue :: "double \<Rightarrow> double \<Rightarrow> State \<Rightarrow> bool" where
  "continue finalT currentTime p = (fless currentTime finalT \<and> fge (vertPos p) (Fin 0))"

fun drive :: "rounding \<Rightarrow> nat \<Rightarrow> double \<Rightarrow> double \<Rightarrow> double \<Rightarrow> State
    \<Rightarrow> (double \<times> State) list option" where
  "drive rnd 0 dt finalT currentTime p =
     (if continue finalT currentTime p then None else Some [])"
| "drive rnd (Suc fuel) dt finalT currentTime p =
     (if continue finalT currentTime p then
        (let p' = rk4 rnd p dt;
             t' = fadd rnd currentTime dt
         in map_option ((#) (t', p')) (drive rnd fuel dt finalT t' p'))
      else Some [])"

definition main :: "rounding \<Rightarrow> nat \<Rightarrow> double list \<Rightarrow> real option list
    \<Rightarrow> (double \<times> State) list option" where
  "main rnd fuel argv cin =
     (case acquire argv cin of
        None \<Rightarrow> None
      | Some ps \<Rightarrow> drive rnd fuel (deltaTime ps) (finalTime ps) (Fin 0) (init_state rnd ps))"


text \<open>
  One pass through the body of the loop (lines 150 to 152) as a function on the pair of
  time and state, and the time and state reached from \<open>(t, p)\<close> after \<open>k\<close> passes. They
  say which step the loop is at without saying whether it goes on.
\<close>

definition iteration :: "rounding \<Rightarrow> double \<Rightarrow> double \<times> State \<Rightarrow> double \<times> State" where
  "iteration rnd dt ts = (fadd rnd (fst ts) dt, rk4 rnd (snd ts) dt)"

definition reached :: "rounding \<Rightarrow> double \<Rightarrow> double \<Rightarrow> State \<Rightarrow> nat \<Rightarrow> double \<times> State" where
  "reached rnd dt t p k = (iteration rnd dt ^^ k) (t, p)"

section \<open>The operations as the specification words them\<close>

text \<open>
  The intermediate state of EvaluateAt: the base state advanced by Euler's method with
  the prior derivative, \<open>pos' = pos + vel * dt\<close> and \<open>vel' = vel + acc * dt\<close> on both axes.
\<close>

definition Euler :: "rounding \<Rightarrow> State \<Rightarrow> double \<Rightarrow> Derivative \<Rightarrow> State" where
  "Euler rnd baseState dt d =
     \<lparr> vertPos = fadd rnd (vertPos baseState) (fmul rnd (vertVel' d) dt),
       horzPos = fadd rnd (horzPos baseState) (fmul rnd (horzVel' d) dt),
       vertVel = fadd rnd (vertVel baseState) (fmul rnd (vertAcc d) dt),
       horzVel = fadd rnd (horzVel baseState) (fmul rnd (horzAcc d) dt) \<rparr>"







text \<open>The magnitude of a double, in which the specification compares accelerations.\<close>

fun fabs :: "double \<Rightarrow> double" where
  "fabs (Fin x) = Fin \<bar>x\<bar>"
| "fabs PInf = PInf"
| "fabs NInf = PInf"
| "fabs NaN = NaN"


section \<open>Properties of the rounding \<open>binary64\<close>\<close>

subsection \<open>Rounding to the nearest integer\<close>

lemma rne_of_int: "rne (of_int n) = n"
  by (simp add: rne_def)

lemma rne_lower: "\<lfloor>q\<rfloor> \<le> rne q"
  by (simp add: rne_def Let_def)

lemma rne_upper: "rne q \<le> \<lfloor>q\<rfloor> + 1"
  by (simp add: rne_def Let_def)

lemma rne_mono:
  assumes "x \<le> y"
  shows "rne x \<le> rne y"
proof (cases "\<lfloor>x\<rfloor> = \<lfloor>y\<rfloor>")
  case True
  with assms have "x - of_int \<lfloor>x\<rfloor> \<le> y - of_int \<lfloor>y\<rfloor>" by simp
  with True show ?thesis by (auto simp: rne_def Let_def)
next
  case False
  with assms have "\<lfloor>x\<rfloor> < \<lfloor>y\<rfloor>" by (simp add: floor_mono order.strict_iff_order)
  then have "\<lfloor>x\<rfloor> + 1 \<le> \<lfloor>y\<rfloor>" by simp
  with rne_upper [of x] rne_lower [of y] show ?thesis by linarith
qed

lemma rne_minus: "rne (- q) = - rne q"
proof (cases "q \<in> \<int>")
  case True
  then obtain n where "q = of_int n" by (auto elim: Ints_cases)
  then show ?thesis using rne_of_int [of "- n"] rne_of_int [of n] by simp
next
  case False
  then have "q \<noteq> of_int \<lfloor>q\<rfloor>" by (metis Ints_of_int)
  then have fl: "\<lfloor>- q\<rfloor> = - \<lfloor>q\<rfloor> - 1"
    by (simp add: floor_minus ceiling_altdef)
  have "even (- \<lfloor>q\<rfloor> - 1) \<longleftrightarrow> odd \<lfloor>q\<rfloor>" by simp
  then show ?thesis
    unfolding rne_def Let_def fl by (auto simp: algebra_simps)
qed

lemma rne_nearest:
  assumes "of_int n - 1/2 < q" and "q < of_int n + 1/2"
  shows "rne q = n"
proof -
  have "\<lfloor>q\<rfloor> = n \<or> \<lfloor>q\<rfloor> = n - 1" using assms by linarith
  then show ?thesis
  proof
    assume f: "\<lfloor>q\<rfloor> = n"
    with assms show ?thesis by (simp add: rne_def Let_def)
  next
    assume f: "\<lfloor>q\<rfloor> = n - 1"
    have "q < of_int n" using f by linarith
    with assms f show ?thesis by (simp add: rne_def Let_def)
  qed
qed

lemma rne_tie_even:
  assumes "q = of_int n + 1/2"
  shows "rne q = (if even n then n else n + 1)"
proof -
  have "\<lfloor>q\<rfloor> = n" using assms by linarith
  with assms show ?thesis by (simp add: rne_def Let_def)
qed


subsection \<open>The binade of a real\<close>

lemma floor_log2_eq:
  assumes "2 powi e \<le> \<bar>x\<bar>" and "\<bar>x\<bar> < 2 powi (e + 1)"
  shows "\<lfloor>log 2 \<bar>x\<bar>\<rfloor> = e"
proof -
  have pos: "0 < \<bar>x\<bar>" using assms(1) by (smt (verit) zero_less_power_int)
  have "2 powr (real_of_int e) \<le> \<bar>x\<bar>" "\<bar>x\<bar> < 2 powr (real_of_int e + 1)"
    using assms powr_real_of_int' [of 2 e] powr_real_of_int' [of 2 "e + 1"] by simp_all
  then show ?thesis
    using floor_log_eq_powr_iff [of "\<bar>x\<bar>" 2 e] pos by simp
qed

lemma binade_lower:
  assumes "x \<noteq> 0"
  shows "2 powi \<lfloor>log 2 \<bar>x\<bar>\<rfloor> \<le> \<bar>x\<bar>"
proof -
  have "2 powr (real_of_int \<lfloor>log 2 \<bar>x\<bar>\<rfloor>) \<le> \<bar>x\<bar>"
    using floor_log_eq_powr_iff [of "\<bar>x\<bar>" 2 "\<lfloor>log 2 \<bar>x\<bar>\<rfloor>"] assms by simp
  then show ?thesis using powr_real_of_int' [of 2 "\<lfloor>log 2 \<bar>x\<bar>\<rfloor>"] by simp
qed

lemma binade_upper:
  assumes "x \<noteq> 0"
  shows "\<bar>x\<bar> < 2 powi (\<lfloor>log 2 \<bar>x\<bar>\<rfloor> + 1)"
proof -
  have "\<bar>x\<bar> < 2 powr (real_of_int \<lfloor>log 2 \<bar>x\<bar>\<rfloor> + 1)"
    using floor_log_eq_powr_iff [of "\<bar>x\<bar>" 2 "\<lfloor>log 2 \<bar>x\<bar>\<rfloor>"] assms by simp
  then show ?thesis using powr_real_of_int' [of 2 "\<lfloor>log 2 \<bar>x\<bar>\<rfloor> + 1"] by simp
qed

lemma floor_log2_mono:
  assumes "0 < x" and "x \<le> y"
  shows "\<lfloor>log 2 x\<rfloor> \<le> \<lfloor>log 2 y\<rfloor>"
  using assms by (intro floor_mono) simp

lemma ulp_exp_minus: "ulp_exp (- x) = ulp_exp x"
  by (simp add: ulp_exp_def)

lemma ulp_exp_mono:
  assumes "0 < x" and "x \<le> y"
  shows "ulp_exp x \<le> ulp_exp y"
  using floor_log2_mono [OF assms] assms by (simp add: ulp_exp_def)

lemma ulp_exp_eval:
  assumes "2 powi e \<le> \<bar>x\<bar>" and "\<bar>x\<bar> < 2 powi (e + 1)"
  shows "ulp_exp x = max (e - 52) (- 1074)"
  by (simp add: ulp_exp_def floor_log2_eq [OF assms])

subsection \<open>Rounding to a double\<close>

lemma round_fin_0: "round_fin 0 = 0"
  by (simp add: round_fin_def)

lemma round_fin_minus: "round_fin (- x) = - round_fin x"
  by (simp add: round_fin_def ulp_exp_minus rne_minus)

lemma round_fin_nonneg:
  assumes "0 \<le> x"
  shows "0 \<le> round_fin x"
proof -
  have "0 \<le> x / 2 powi ulp_exp x" using assms by simp
  from rne_mono [OF this] have "0 \<le> rne (x / 2 powi ulp_exp x)"
    using rne_of_int [of 0] by simp
  then show ?thesis by (simp add: round_fin_def)
qed

text \<open>A multiple of a power of two with at most 53 significant bits is a double.\<close>

lemma round_fin_representable:
  assumes "\<bar>n\<bar> < 2 ^ 53" and "- 1074 \<le> k"
  shows "round_fin (of_int n * 2 powi k) = of_int n * 2 powi k"
proof (cases "n = 0")
  case True
  then show ?thesis by (simp add: round_fin_def)
next
  case False
  let ?x = "of_int n * 2 powi k :: real"
  have x0: "?x \<noteq> 0" using False by simp
  have "\<bar>?x\<bar> = of_int \<bar>n\<bar> * 2 powi k" by (simp add: abs_mult)
  also have "\<dots> < 2 ^ 53 * 2 powi k"
  proof -
    have "(of_int \<bar>n\<bar> :: real) < of_int (2 ^ 53)" using assms(1) by (simp only: of_int_less_iff)
    then show ?thesis by simp
  qed
  also have "\<dots> = 2 powi (k + 53)" by (simp add: power_int_add)
  finally have up: "\<bar>?x\<bar> < 2 powi (k + 53)" .
  have "\<lfloor>log 2 \<bar>?x\<bar>\<rfloor> < k + 53"
  proof (rule ccontr)
    assume "\<not> \<lfloor>log 2 \<bar>?x\<bar>\<rfloor> < k + 53"
    then have "k + 53 \<le> \<lfloor>log 2 \<bar>?x\<bar>\<rfloor>" by simp
    then have "(2::real) powi (k + 53) \<le> 2 powi \<lfloor>log 2 \<bar>?x\<bar>\<rfloor>"
      by (intro power_int_increasing) simp_all
    with binade_lower [OF x0] up show False by linarith
  qed
  then have le: "ulp_exp ?x \<le> k" using assms(2) by (simp add: ulp_exp_def)
  define u where "u = ulp_exp ?x"
  define j where "j = nat (k - u)"
  have "k = u + int j" using le by (simp add: j_def u_def)
  then have pk: "(2::real) powi k = 2 powi u * 2 ^ j" by (simp add: power_int_add)
  have "?x / 2 powi u = of_int (n * 2 ^ j)" by (simp add: pk)
  then have "rne (?x / 2 powi u) = n * 2 ^ j"
    by (simp only: rne_of_int)
  then have "round_fin ?x = of_int (n * 2 ^ j) * 2 powi u"
    using x0 by (simp add: round_fin_def u_def)
  also have "\<dots> = of_int n * 2 powi k" by (simp add: pk)
  finally show ?thesis .
qed


lemma round_fin_mono_pos:
  assumes "0 < x" and "x \<le> y"
  shows "round_fin x \<le> round_fin y"
proof -
  have y: "0 < y" using assms by simp
  have le: "ulp_exp x \<le> ulp_exp y" by (rule ulp_exp_mono [OF assms])
  show ?thesis
  proof (cases "ulp_exp x = ulp_exp y")
    case True
    have "x / 2 powi ulp_exp y \<le> y / 2 powi ulp_exp y"
      using assms(2) by (simp add: divide_right_mono)
    from rne_mono [OF this]
    have "real_of_int (rne (x / 2 powi ulp_exp y)) * 2 powi ulp_exp y
            \<le> real_of_int (rne (y / 2 powi ulp_exp y)) * 2 powi ulp_exp y"
      by (intro mult_right_mono) simp_all
    with True assms y show ?thesis by (simp add: round_fin_def)
  next
    case False
    with le have lt: "ulp_exp x < ulp_exp y" by simp
    have "- 1074 \<le> ulp_exp x" by (simp add: ulp_exp_def)
    with lt have ey: "ulp_exp y = \<lfloor>log 2 \<bar>y\<bar>\<rfloor> - 52"
      unfolding ulp_exp_def by linarith
    have "2 powi (ulp_exp y + 52) \<le> \<bar>y\<bar>"
      using binade_lower [of y] y ey by simp
    then have "2 ^ 52 * 2 powi ulp_exp y \<le> y"
      using y by (simp add: power_int_add)
    then have "of_int (2 ^ 52) \<le> y / 2 powi ulp_exp y"
      by (simp add: pos_le_divide_eq)
    from rne_mono [OF this] have "2 ^ 52 \<le> rne (y / 2 powi ulp_exp y)"
      by (simp only: rne_of_int)
    then have "(2 ^ 52 :: real) \<le> of_int (rne (y / 2 powi ulp_exp y))"
      by (metis of_int_le_iff of_int_numeral of_int_power)
    then have "2 ^ 52 * 2 powi ulp_exp y
                 \<le> real_of_int (rne (y / 2 powi ulp_exp y)) * 2 powi ulp_exp y"
      by (intro mult_right_mono) simp_all
    then have low: "2 powi (ulp_exp y + 52) \<le> round_fin y"
      using y by (simp add: round_fin_def power_int_add)
    have "\<lfloor>log 2 \<bar>x\<bar>\<rfloor> + 1 \<le> ulp_exp x + 53" by (simp add: ulp_exp_def)
    then have "(2::real) powi (\<lfloor>log 2 \<bar>x\<bar>\<rfloor> + 1) \<le> 2 powi (ulp_exp x + 53)"
      by (intro power_int_increasing) simp_all
    with binade_upper [of x] assms(1) have "x < 2 powi (ulp_exp x + 53)" by simp
    then have "x \<le> 2 ^ 53 * 2 powi ulp_exp x" by (simp add: power_int_add)
    then have "x / 2 powi ulp_exp x \<le> of_int (2 ^ 53)"
      by (simp add: pos_divide_le_eq)
    from rne_mono [OF this] have "rne (x / 2 powi ulp_exp x) \<le> 2 ^ 53"
      by (simp only: rne_of_int)
    then have "of_int (rne (x / 2 powi ulp_exp x)) \<le> (2 ^ 53 :: real)"
      by (metis of_int_le_iff of_int_numeral of_int_power)
    then have "real_of_int (rne (x / 2 powi ulp_exp x)) * 2 powi ulp_exp x
                 \<le> 2 ^ 53 * 2 powi ulp_exp x"
      by (intro mult_right_mono) simp_all
    then have "round_fin x \<le> 2 powi (ulp_exp x + 53)"
      using assms(1) by (simp add: round_fin_def power_int_add)
    also have "\<dots> \<le> 2 powi (ulp_exp y + 52)"
      using lt by (intro power_int_increasing) simp_all
    finally show ?thesis using low by simp
  qed
qed

lemma round_fin_mono:
  assumes "x \<le> y"
  shows "round_fin x \<le> round_fin y"
proof -
  consider "0 < x" | "x \<le> 0" "0 \<le> y" | "y < 0" by linarith
  then show ?thesis
  proof cases
    case 1
    then show ?thesis using assms by (rule round_fin_mono_pos)
  next
    case 2
    have "0 \<le> round_fin (- x)" using 2 by (intro round_fin_nonneg) simp
    then have "round_fin x \<le> 0" by (simp add: round_fin_minus)
    also have "0 \<le> round_fin y" using 2 by (intro round_fin_nonneg)
    finally show ?thesis .
  next
    case 3
    have "round_fin (- y) \<le> round_fin (- x)"
      using 3 assms by (intro round_fin_mono_pos) simp_all
    then show ?thesis by (simp add: round_fin_minus)
  qed
qed

lemma binary64_0: "binary64 0 = Fin 0"
  by (simp add: binary64_def round_fin_0)

lemma round_fin_sign: "x \<le> 0 \<Longrightarrow> round_fin x \<le> 0"
  using round_fin_mono [of x 0] by (simp add: round_fin_0)

lemma binary64_mono:
  assumes "x \<le> y"
  shows "fge (binary64 y) (binary64 x)"
proof -
  note m = round_fin_mono [OF assms]
  have px: "0 \<le> round_fin x" if "0 < x"
    using that by (intro round_fin_nonneg) simp
  have ny: "round_fin y \<le> 0" if "\<not> 0 < y"
    using that by (intro round_fin_sign) simp
  show ?thesis
    using m assms px ny round_fin_sign [of x] round_fin_nonneg [of y]
    by (auto simp: binary64_def abs_if split: if_splits)
qed


lemma binary64_representable:
  assumes "\<bar>n\<bar> < 2 ^ 53" and "- 1074 \<le> k" and "\<bar>of_int n * 2 powi k\<bar> < (2 ^ 1024 :: real)"
  shows "binary64 (of_int n * 2 powi k) = Fin (of_int n * 2 powi k)"
  using assms(3) by (simp add: binary64_def round_fin_representable [OF assms(1,2)])

lemma binary64_minus: "binary64 (- x) = (case binary64 x of Fin r \<Rightarrow> Fin (- r) | PInf \<Rightarrow> NInf | NInf \<Rightarrow> PInf | NaN \<Rightarrow> NaN)"
  using round_fin_nonneg [of x] round_fin_sign [of x] round_fin_0
  by (auto simp: binary64_def round_fin_minus)

text \<open>
  A real of magnitude at most a power of two (below the overflow threshold) rounds to a
  finite double of magnitude at most that power.
\<close>

lemma binary64_bounded:
  assumes "\<bar>x\<bar> \<le> 2 powi k" and "- 1074 \<le> k" and "k \<le> 1023"
  shows "\<exists>r. binary64 x = Fin r \<and> \<bar>r\<bar> \<le> 2 powi k"
proof -
  have p: "round_fin (2 powi k) = 2 powi k"
    using round_fin_representable [of 1 k] assms(2) by simp
  have "x \<le> 2 powi k" "- (2 powi k) \<le> x" using assms(1) by linarith+
  then have "round_fin x \<le> 2 powi k" "- (2 powi k) \<le> round_fin x"
    using round_fin_mono [of x "2 powi k"] round_fin_mono [of "- (2 powi k)" x]
    by (simp_all add: p round_fin_minus)
  then have b: "\<bar>round_fin x\<bar> \<le> 2 powi k" by linarith
  have "(2::real) powi k \<le> 2 powi 1023" using assms by (intro power_int_increasing) simp_all
  also have "\<dots> < 2 ^ 1024" by simp
  finally have "\<bar>round_fin x\<bar> < 2 ^ 1024" using b by linarith
  with b show ?thesis by (simp add: binary64_def)
qed

text \<open>Evaluating \<open>binary64\<close> at a real whose binade and rounded quotient are given.\<close>

lemma binary64_eval:
  assumes "2 powi e \<le> \<bar>x\<bar>" and "\<bar>x\<bar> < 2 powi (e + 1)"
    and "- 1022 \<le> e" and "e < 1023"
    and "rne (x / 2 powi (e - 52)) = n"
  shows "binary64 x = Fin (of_int n * 2 powi (e - 52))"
proof -
  have x0: "x \<noteq> 0" using assms(1) by (smt (verit) zero_less_power_int)
  have u: "ulp_exp x = e - 52"
    using ulp_exp_eval [OF assms(1,2)] assms(3) by simp
  have r: "round_fin x = of_int n * 2 powi (e - 52)"
    using x0 assms(5) by (simp add: round_fin_def u)
  have "\<bar>x\<bar> \<le> 2 powi (e + 1)" using assms(2) by simp
  from binary64_bounded [OF this] assms(3,4)
  obtain r' where "binary64 x = Fin r'" by auto
  then show ?thesis using r by (auto simp: binary64_def split: if_splits)
qed

lemma g_binary64: "g binary64 = Fin (- (5520653160719109 / 2 ^ 49))"
proof -
  have "binary64 (9.80665) = Fin (of_int 5520653160719109 * 2 powi (3 - 52))"
  proof (rule binary64_eval)
    show "rne (9.80665 / 2 powi (3 - 52)) = 5520653160719109"
      by (rule rne_nearest) (simp_all add: power_int_minus field_simps)
  qed (simp_all)
  then show ?thesis
    by (simp add: g_def binary64_minus power_int_minus)
qed


lemma binary64_int:
  assumes "\<bar>n\<bar> < 2 ^ 53"
  shows "binary64 (of_int n) = Fin (of_int n)"
proof -
  have "\<bar>real_of_int n\<bar> < 2 ^ 53"
    using assms by (metis of_int_abs of_int_less_iff of_int_numeral of_int_power)
  then have "\<bar>of_int n * 2 powi 0\<bar> < (2 ^ 1024 :: real)" by simp
  from binary64_representable [OF assms _ this] show ?thesis by simp
qed

lemma binary64_re: "binary64 6371000 = Fin 6371000"
  using binary64_int [of 6371000] by simp

lemma binary64_1: "binary64 1 = Fin 1"
  using binary64_int [of 1] by simp

lemma binary64_g: "binary64 (- (5520653160719109 / 2 ^ 49)) = Fin (- (5520653160719109 / 2 ^ 49))"
  using binary64_representable [of "- 5520653160719109" "- 49"]
  by (simp add: power_int_minus)

lemma binary64_re_tiny: "binary64 (6371000 + 1 / 2 ^ 32) = Fin 6371000"
proof -
  have "binary64 (6371000 + 1 / 2 ^ 32) = Fin (of_int (6371000 * 2 ^ 30) * 2 powi (22 - 52))"
  proof (rule binary64_eval)
    show "rne ((6371000 + 1 / 2 ^ 32) / 2 powi (22 - 52)) = 6371000 * 2 ^ 30"
      by (rule rne_nearest) (simp_all add: power_int_minus field_simps)
  qed simp_all
  then show ?thesis by (simp add: power_int_minus)
qed

lemma ulp_exp_lower:
  assumes "2 powi e \<le> \<bar>x\<bar>"
  shows "e - 52 \<le> ulp_exp x"
proof -
  have x0: "x \<noteq> 0" using assms by (smt (verit) zero_less_power_int)
  have "e \<le> \<lfloor>log 2 \<bar>x\<bar>\<rfloor>"
  proof (rule ccontr)
    assume "\<not> e \<le> \<lfloor>log 2 \<bar>x\<bar>\<rfloor>"
    then have "\<lfloor>log 2 \<bar>x\<bar>\<rfloor> + 1 \<le> e" by simp
    then have "(2::real) powi (\<lfloor>log 2 \<bar>x\<bar>\<rfloor> + 1) \<le> 2 powi e"
      by (intro power_int_increasing) simp_all
    with binade_upper [OF x0] assms show False by linarith
  qed
  then show ?thesis by (simp add: ulp_exp_def)
qed

text \<open>A double of magnitude at least \<open>2 ^ 21\<close> is an integer multiple of \<open>1 / 2 ^ 31\<close>.\<close>

lemma double_multiple:
  assumes "binary64 h = Fin h" and "2 ^ 21 \<le> \<bar>h\<bar>"
  shows "\<exists>N::int. h = of_int N / 2 ^ 31"
proof -
  have h0: "h \<noteq> 0" using assms(2) by auto
  have r: "round_fin h = h" using assms(1) by (simp add: binary64_def split: if_splits)
  have "(2::real) powi 21 \<le> \<bar>h\<bar>" using assms(2) by simp
  from ulp_exp_lower [OF this] have u: "- 31 \<le> ulp_exp h" by simp
  define j where "j = nat (ulp_exp h + 31)"
  have "ulp_exp h = int j - 31" using u by (simp add: j_def)
  then have p: "(2::real) powi ulp_exp h = 2 ^ j / 2 ^ 31"
    by (simp add: power_int_diff)
  define n where "n = rne (h / 2 powi ulp_exp h)"
  have "h = of_int n * 2 powi ulp_exp h"
    using r h0 by (simp add: round_fin_def n_def)
  also have "\<dots> = of_int (n * 2 ^ j) / 2 ^ 31" by (simp add: p)
  finally show ?thesis by blast
qed

subsection \<open>Signs and order of rounded results\<close>

lemma binary64_nonneg: "0 \<le> x \<Longrightarrow> fge (binary64 x) (Fin 0)"
  using binary64_mono [of 0 x] by (simp add: binary64_0)

lemma binary64_nonpos: "x \<le> 0 \<Longrightarrow> fge (Fin 0) (binary64 x)"
  using binary64_mono [of x 0] by (simp add: binary64_0)

lemma fge_trans: "fge x y \<Longrightarrow> fge y z \<Longrightarrow> fge x z"
  by (cases x; cases y; cases z) simp_all

text \<open>The quotient \<open>re / d\<close> for a divisor \<open>d \<ge> 0\<close>: not negative, and smaller for a larger divisor.\<close>

lemma quotient_nonneg:
  assumes "fge d (Fin 0)"
  shows "fge (fdiv binary64 re d) (Fin 0)"
proof (cases d)
  case (Fin x)
  with assms have "0 \<le> 6371000 / x" by simp
  from binary64_nonneg [OF this] Fin show ?thesis by (simp add: re_def)
qed (use assms in \<open>simp_all add: re_def\<close>)

lemma quotient_antitone:
  assumes "fge d2 d1" and "fge d1 (Fin 0)"
  shows "fge (fdiv binary64 re d1) (fdiv binary64 re d2)"
proof -
  have d2: "fge d2 (Fin 0)" using assms by (rule fge_trans)
  note n1 = quotient_nonneg [OF assms(2)] and n2 = quotient_nonneg [OF d2]
  show ?thesis
  proof (cases d1)
    case d1: (Fin x1)
    show ?thesis
    proof (cases d2)
      case d2': (Fin x2)
      show ?thesis
      proof (cases "x1 = 0")
        case True
        with d1 have "fdiv binary64 re d1 = PInf" by (simp add: re_def)
        with n2 show ?thesis by (cases "fdiv binary64 re d2") simp_all
      next
        case False
        with assms d1 d2' have "0 < x1" "x1 \<le> x2" by simp_all
        then have "6371000 / x2 \<le> 6371000 / x1" by (simp add: frac_le)
        from binary64_mono [OF this] \<open>0 < x1\<close> \<open>x1 \<le> x2\<close> d1 d2' show ?thesis
          by (simp add: re_def)
      qed
    next
      case PInf
      with n1 show ?thesis by (simp add: re_def)
    qed (use assms d1 in simp_all)
  next
    case PInf
    with assms(1) have "d2 = PInf" by (cases d2) simp_all
    with PInf show ?thesis by (simp add: re_def)
  qed (use assms in simp_all)
qed


lemma fge_NInf: "x \<noteq> NaN \<Longrightarrow> fge x NInf"
  by (cases x) simp_all

lemma nonpos_not_NaN: "fge (Fin 0) x \<Longrightarrow> x \<noteq> NaN"
  by (cases x) simp_all

text \<open>
  The product \<open>(c * q) * q\<close> of \<^verbatim>\<open>computeVertAcc\<close> for a negative constant \<open>c\<close> and a
  quotient \<open>q \<ge> 0\<close>: not positive, and smaller for a larger quotient.
\<close>

lemma product_nonpos:
  assumes "c < 0" and "fge q (Fin 0)"
  shows "fge (Fin 0) (fmul binary64 (fmul binary64 (Fin c) q) q)"
proof (cases q)
  case q: (Fin x)
  with assms have x: "0 \<le> x" by simp
  then have "c * x \<le> 0" using assms(1) by (simp add: mult_nonpos_nonneg)
  note m = binary64_nonpos [OF this]
  show ?thesis
  proof (cases "binary64 (c * x)")
    case (Fin y)
    with m have "y * x \<le> 0" using x by (simp add: mult_nonpos_nonneg)
    from binary64_nonpos [OF this] q Fin show ?thesis by simp
  next
    case NInf
    have "x \<noteq> 0" using NInf by (auto simp: binary64_0)
    with x q NInf show ?thesis by simp
  qed (use m in simp_all)
next
  case PInf
  with assms(1) show ?thesis by simp
qed (use assms in simp_all)

lemma product_antitone:
  assumes "c < 0" and "fge q1 q2" and "fge q2 (Fin 0)"
  shows "fge (fmul binary64 (fmul binary64 (Fin c) q2) q2)
             (fmul binary64 (fmul binary64 (Fin c) q1) q1)"
proof -
  have q1: "fge q1 (Fin 0)" using assms(2,3) by (rule fge_trans)
  note n2 = nonpos_not_NaN [OF product_nonpos [OF assms(1,3)]]
  show ?thesis
  proof (cases q1)
    case PInf
    with assms(1) n2 show ?thesis by (simp add: fge_NInf)
  next
    case f1: (Fin x1)
    with assms(2,3) obtain x2 where f2: "q2 = Fin x2" and x: "0 \<le> x2" "x2 \<le> x1"
      by (cases q2) simp_all
    have le: "c * x1 \<le> c * x2" using assms(1) x by (simp add: mult_left_mono_neg)
    have "c * x2 \<le> 0" "c * x1 \<le> 0" using assms(1) x by (simp_all add: mult_nonpos_nonneg)
    note m2 = binary64_nonpos [OF this(1)] and m1 = binary64_nonpos [OF this(2)]
    note mm = binary64_mono [OF le]
    show ?thesis
    proof (cases "binary64 (c * x1)")
      case NInf
      have "x1 \<noteq> 0" using NInf by (auto simp: binary64_0)
      with x f1 f2 NInf n2 show ?thesis by (simp add: fge_NInf)
    next
      case y1: (Fin y1)
      with mm m2 obtain y2 where y2: "binary64 (c * x2) = Fin y2" and y: "y1 \<le> y2" "y2 \<le> 0"
        by (cases "binary64 (c * x2)") simp_all
      have "y1 * x1 \<le> y2 * x1" using y x by (simp add: mult_right_mono)
      also have "\<dots> \<le> y2 * x2" using y x by (simp add: mult_left_mono_neg)
      finally have "y1 * x1 \<le> y2 * x2" .
      from binary64_mono [OF this] f1 f2 y1 y2 show ?thesis by simp
    qed (use m1 in simp_all)
  qed (use q1 in simp_all)
qed

lemma fabs_antitone:
  assumes "fge y x" and "fge (Fin 0) y"
  shows "fge (fabs x) (fabs y)"
  using assms by (cases x; cases y) simp_all


section \<open>The physics model\<close>

text \<open>
  C4. \<^verbatim>\<open>computeHorzAcc\<close> returns the constant \<^verbatim>\<open>a\<close>, which is 0, whatever the state.
\<close>

theorem computeHorzAcc_zero: "computeHorzAcc state = Fin 0"
  by (simp add: computeHorzAcc_def a_def)

lemma vertAcc_exact:
  assumes "vertPos state = Fin h" and "6371000 + h \<noteq> 0"
  shows "computeVertAcc exact state =
           Fin (- 9.80665 * (6371000 / (6371000 + h)) * (6371000 / (6371000 + h)))"
  using assms by (simp add: computeVertAcc_def g_def re_def exact_def)





subsection \<open>Gravity and altitude\<close>

lemma vertAcc_binary64_sea_level:
  "computeVertAcc binary64 \<lparr>vertPos = Fin 0, horzPos = x, vertVel = v, horzVel = w\<rparr>
     = Fin (- (5520653160719109 / 2 ^ 49))"
  using binary64_g by (simp add: computeVertAcc_def g_binary64 re_def binary64_re binary64_1)

lemma vertAcc_binary64_tiny:
  "computeVertAcc binary64 \<lparr>vertPos = Fin (1 / 2 ^ 32), horzPos = x, vertVel = v, horzVel = w\<rparr>
     = Fin (- (5520653160719109 / 2 ^ 49))"
  using binary64_g binary64_re_tiny
  by (simp add: computeVertAcc_def g_binary64 re_def binary64_1)

lemma vertAcc_binary64_antitone:
  assumes "vertPos s1 = Fin h1" and "vertPos s2 = Fin h2"
    and "- 6371000 < h1" and "h1 \<le> h2"
  shows "fge (fabs (computeVertAcc binary64 s1)) (fabs (computeVertAcc binary64 s2))"
proof -
  let ?d1 = "fadd binary64 re (Fin h1)" and ?d2 = "fadd binary64 re (Fin h2)"
  have d1: "fge ?d1 (Fin 0)" using assms(3) by (simp add: re_def binary64_nonneg)
  have d: "fge ?d2 ?d1" using assms(4) by (simp add: re_def binary64_mono)
  note q = quotient_antitone [OF d d1]
  have "fge ?d2 (Fin 0)" using d d1 by (rule fge_trans)
  note q2 = quotient_nonneg [OF this]
  have c: "- (5520653160719109 / 2 ^ 49) < (0::real)" by simp
  from product_antitone [OF c q q2] product_nonpos [OF c q2]
  show ?thesis
    unfolding computeVertAcc_def g_binary64 assms(1,2) by (rule fabs_antitone)
qed


lemma vertAcc_exact_strict:
  assumes "vertPos s1 = Fin h1" and "vertPos s2 = Fin h2"
    and "- 6371000 < h1" and "h1 < h2"
  shows "fless (fabs (computeVertAcc exact s2)) (fabs (computeVertAcc exact s1))"
proof -
  have nz: "6371000 + h1 \<noteq> 0" "6371000 + h2 \<noteq> 0" using assms(3,4) by simp_all
  define q1 where "q1 = 6371000 / (6371000 + h1)"
  define q2 where "q2 = 6371000 / (6371000 + h2)"
  have q: "0 < q2" "q2 < q1"
    using assms(3,4) by (simp_all add: q1_def q2_def frac_less2)
  then have "q2 * q2 < q1 * q1" by (simp add: mult_strict_mono)
  then have "\<bar>- 9.80665 * q2 * q2\<bar> < \<bar>- 9.80665 * q1 * q1\<bar>"
    using q by (simp add: abs_mult)
  then show ?thesis
    unfolding vertAcc_exact [OF assms(1) nz(1)] vertAcc_exact [OF assms(2) nz(2)]
    by (simp add: q1_def q2_def)
qed

text \<open>
  C6, as stated, fails in double arithmetic: the altitudes \<open>0\<close> and \<open>1 / 2 ^ 32\<close> give the
  same acceleration, because \<open>6371000 + 1 / 2 ^ 32\<close> rounds to \<open>6371000\<close>.
\<close>

theorem gravity_equal_binary64:
  "computeVertAcc binary64 \<lparr>vertPos = Fin 0, horzPos = Fin 0, vertVel = Fin 0, horzVel = Fin 0\<rparr>
     = Fin (- (5520653160719109 / 2 ^ 49)) \<and>
   computeVertAcc binary64
       \<lparr>vertPos = Fin (1 / 2 ^ 32), horzPos = Fin 0, vertVel = Fin 0, horzVel = Fin 0\<rparr>
     = Fin (- (5520653160719109 / 2 ^ 49)) \<and>
   \<not> fless (fabs (computeVertAcc binary64
                \<lparr>vertPos = Fin (1 / 2 ^ 32), horzPos = Fin 0, vertVel = Fin 0, horzVel = Fin 0\<rparr>))
            (fabs (computeVertAcc binary64
                \<lparr>vertPos = Fin 0, horzPos = Fin 0, vertVel = Fin 0, horzVel = Fin 0\<rparr>))"
  using vertAcc_binary64_sea_level [of "Fin 0" "Fin 0" "Fin 0"]
    vertAcc_binary64_tiny [of "Fin 0" "Fin 0" "Fin 0"]
  by simp


text \<open>
  C6, amended. For altitudes \<open>-R < h1 < h2\<close> the magnitude of the vertical acceleration at
  \<open>h1\<close> is at least the magnitude at \<open>h2\<close> in double arithmetic, and strictly greater in
  exact arithmetic.
\<close>

theorem gravity_weakens_with_altitude:
  assumes "vertPos s1 = Fin h1" and "vertPos s2 = Fin h2"
    and "- 6371000 < h1" and "h1 < h2"
  shows "fge (fabs (computeVertAcc binary64 s1)) (fabs (computeVertAcc binary64 s2)) \<and>
         fless (fabs (computeVertAcc exact s2)) (fabs (computeVertAcc exact s1))"
  using vertAcc_binary64_antitone [OF assms(1,2,3)] vertAcc_exact_strict [OF assms] assms(4)
  by simp

theorem gravity_weakens_witness:
  "fge (fabs (computeVertAcc binary64
          \<lparr>vertPos = Fin 0, horzPos = Fin 0, vertVel = Fin 0, horzVel = Fin 0\<rparr>))
       (fabs (computeVertAcc binary64
          \<lparr>vertPos = Fin 6371000, horzPos = Fin 0, vertVel = Fin 0, horzVel = Fin 0\<rparr>)) \<and>
   fless (fabs (computeVertAcc exact
          \<lparr>vertPos = Fin 6371000, horzPos = Fin 0, vertVel = Fin 0, horzVel = Fin 0\<rparr>))
       (fabs (computeVertAcc exact
          \<lparr>vertPos = Fin 0, horzPos = Fin 0, vertVel = Fin 0, horzVel = Fin 0\<rparr>))"
  using gravity_weakens_with_altitude
    [of "\<lparr>vertPos = Fin 0, horzPos = Fin 0, vertVel = Fin 0, horzVel = Fin 0\<rparr>" 0
        "\<lparr>vertPos = Fin 6371000, horzPos = Fin 0, vertVel = Fin 0, horzVel = Fin 0\<rparr>" 6371000]
  by simp


section \<open>The integrator\<close>

text \<open>
  C5. In either arithmetic, the three-argument \<^verbatim>\<open>evaluate\<close> first forms the intermediate
  state by Euler's method from the base state and the prior derivative, and returns the
  derivative whose velocities are those of the intermediate state and whose accelerations
  are the physics model at the intermediate state.
\<close>

theorem evaluateAt_Euler:
  "evaluateAt rnd baseState dt d =
     \<lparr> vertVel' = vertVel (Euler rnd baseState dt d),
       horzVel' = horzVel (Euler rnd baseState dt d),
       vertAcc = computeVertAcc rnd (Euler rnd baseState dt d),
       horzAcc = computeHorzAcc (Euler rnd baseState dt d) \<rparr>"
  by (simp add: evaluateAt_def Euler_def Let_def)





subsection \<open>Horizontal motion\<close>

lemma rk4_horzVel:
  "horzVel (rk4 rnd s dt) =
     fadd rnd (horzVel s) (fmul rnd (rk4_avg rnd (Fin 0) (Fin 0) (Fin 0) (Fin 0)) dt)"
  by (simp add: rk4_def evaluate_def evaluateAt_def computeHorzAcc_def a_def Let_def)

lemma rk4_horzPos:
  "horzPos (rk4 rnd s dt) =
     fadd rnd (horzPos s)
       (fmul rnd
          (rk4_avg rnd (horzVel s)
             (fadd rnd (horzVel s) (fmul rnd (Fin 0) (fdiv rnd dt (Fin 2))))
             (fadd rnd (horzVel s) (fmul rnd (Fin 0) (fdiv rnd dt (Fin 2))))
             (fadd rnd (horzVel s) (fmul rnd (Fin 0) dt)))
          dt)"
  by (simp add: rk4_def evaluate_def evaluateAt_def computeHorzAcc_def a_def Let_def)

lemma rk4_avg_zero:
  assumes "rnd 0 = Fin 0"
  shows "rk4_avg rnd (Fin 0) (Fin 0) (Fin 0) (Fin 0) = Fin 0"
  using assms by (simp add: rk4_avg_def)

text \<open>A real that is no larger in magnitude than a double rounds to a finite double.\<close>

lemma binary64_finite_below:
  assumes "binary64 x = Fin x" and "\<bar>y\<bar> \<le> \<bar>x\<bar>"
  shows "\<exists>r. binary64 y = Fin r"
proof -
  have ax: "binary64 \<bar>x\<bar> = Fin \<bar>x\<bar>" "binary64 (- \<bar>x\<bar>) = Fin (- \<bar>x\<bar>)"
    using assms(1) binary64_minus [of x] binary64_minus [of "- x"] by (auto simp: abs_if)
  have "y \<le> \<bar>x\<bar>" "- \<bar>x\<bar> \<le> y" using assms(2) by linarith+
  from binary64_mono [OF this(1)] binary64_mono [OF this(2)] show ?thesis
    unfolding ax by (cases "binary64 y") simp_all
qed

lemma rk4_horizontal_binary64:
  assumes v: "horzVel s = Fin v" "binary64 v = Fin v"
    and x: "horzPos s = Fin x"
    and t: "binary64 t = Fin t"
  shows "horzVel (rk4 binary64 s (Fin t)) = Fin v"
    and "horzPos (rk4 binary64 s (Fin t)) =
           fadd binary64 (Fin x)
             (fmul binary64 (rk4_avg binary64 (Fin v) (Fin v) (Fin v) (Fin v)) (Fin t))"
proof -
  obtain h where h: "binary64 (t / 2) = Fin h"
    using binary64_finite_below [OF t, of "t / 2"] by auto
  show "horzVel (rk4 binary64 s (Fin t)) = Fin v"
    by (simp add: rk4_horzVel rk4_avg_zero binary64_0 v)
  show "horzPos (rk4 binary64 s (Fin t)) =
           fadd binary64 (Fin x)
             (fmul binary64 (rk4_avg binary64 (Fin v) (Fin v) (Fin v) (Fin v)) (Fin t))"
    by (simp add: rk4_horzPos binary64_0 v x h)
qed

lemma rk4_horizontal_exact:
  assumes "horzVel s = Fin v" and "horzPos s = Fin x"
  shows "horzVel (rk4 exact s (Fin t)) = Fin v"
    and "horzPos (rk4 exact s (Fin t)) = Fin (x + v * t)"
  using assms by (simp_all add: rk4_horzVel rk4_horzPos rk4_avg_def exact_def)


text \<open>The weighted sum of four equal velocities \<open>1 + 1 / 2 ^ 51\<close>, operation by operation.\<close>

lemma avg_step_v: "binary64 (1 + 1 / 2 ^ 51) = Fin (1 + 1 / 2 ^ 51)"
  using binary64_representable [of "2 ^ 51 + 1" "- 51"]
  by (simp add: power_int_minus field_simps)

lemma avg_step_1: "binary64 ((1 + 1 / 2 ^ 51) + (1 + 1 / 2 ^ 51)) = Fin (2 + 1 / 2 ^ 50)"
  using binary64_representable [of "2 ^ 51 + 1" "- 50"]
  by (simp add: power_int_minus field_simps)

lemma avg_step_2: "binary64 (2 * (2 + 1 / 2 ^ 50)) = Fin (4 + 1 / 2 ^ 49)"
  using binary64_representable [of "2 ^ 51 + 1" "- 49"]
  by (simp add: power_int_minus field_simps)

lemma avg_step_3: "binary64 ((1 + 1 / 2 ^ 51) + (4 + 1 / 2 ^ 49)) = Fin (5 + 1 / 2 ^ 49)"
proof -
  have "binary64 ((1 + 1 / 2 ^ 51) + (4 + 1 / 2 ^ 49))
          = Fin (of_int (5 * 2 ^ 50 + 2) * 2 powi (2 - 52))"
  proof (rule binary64_eval)
    have "((1 + 1 / 2 ^ 51) + (4 + 1 / 2 ^ 49)) / 2 powi (2 - 52)
            = real_of_int (5 * 2 ^ 50 + 2) + 1 / 2"
      by (simp add: power_int_minus field_simps)
    from rne_tie_even [OF this]
    show "rne (((1 + 1 / 2 ^ 51) + (4 + 1 / 2 ^ 49)) / 2 powi (2 - 52)) = 5 * 2 ^ 50 + 2"
      by simp
  qed simp_all
  then show ?thesis by (simp add: power_int_minus field_simps)
qed

lemma avg_step_4: "binary64 ((5 + 1 / 2 ^ 49) + (1 + 1 / 2 ^ 51)) = Fin (6 + 1 / 2 ^ 49)"
proof -
  have "binary64 ((5 + 1 / 2 ^ 49) + (1 + 1 / 2 ^ 51))
          = Fin (of_int (6 * 2 ^ 50 + 2) * 2 powi (2 - 52))"
  proof (rule binary64_eval)
    have "((5 + 1 / 2 ^ 49) + (1 + 1 / 2 ^ 51)) / 2 powi (2 - 52)
            = real_of_int (6 * 2 ^ 50 + 2) + 1 / 2"
      by (simp add: power_int_minus field_simps)
    from rne_tie_even [OF this]
    show "rne (((5 + 1 / 2 ^ 49) + (1 + 1 / 2 ^ 51)) / 2 powi (2 - 52)) = 6 * 2 ^ 50 + 2"
      by simp
  qed simp_all
  then show ?thesis by (simp add: power_int_minus field_simps)
qed

lemma avg_step_5: "binary64 ((6 + 1 / 2 ^ 49) / 6) = Fin (1 + 1 / 2 ^ 52)"
proof -
  have "binary64 ((6 + 1 / 2 ^ 49) / 6) = Fin (of_int (2 ^ 52 + 1) * 2 powi (0 - 52))"
  proof (rule binary64_eval)
    show "rne ((6 + 1 / 2 ^ 49) / 6 / 2 powi (0 - 52)) = 2 ^ 52 + 1"
      by (rule rne_nearest) (simp_all add: power_int_minus field_simps)
  qed simp_all
  then show ?thesis by (simp add: power_int_minus field_simps)
qed

lemma avg_step_6: "binary64 (1 + 1 / 2 ^ 52) = Fin (1 + 1 / 2 ^ 52)"
  using binary64_representable [of "2 ^ 52 + 1" "- 52"]
  by (simp add: power_int_minus field_simps)

lemma rk4_avg_binary64_example:
  "rk4_avg binary64 (Fin (1 + 1 / 2 ^ 51)) (Fin (1 + 1 / 2 ^ 51)) (Fin (1 + 1 / 2 ^ 51))
      (Fin (1 + 1 / 2 ^ 51)) = Fin (1 + 1 / 2 ^ 52)"
  using avg_step_1 avg_step_2 avg_step_3 avg_step_4 avg_step_5
  by (simp add: rk4_avg_def)

text \<open>
  C10, as stated, fails in double arithmetic: with \<open>horzVel = 1 + 1 / 2 ^ 51\<close>,
  \<open>horzPos = 0\<close> and \<open>dt = 1\<close> the weighted sum of the four equal stage velocities rounds to
  \<open>1 + 1 / 2 ^ 52\<close>, and that, not \<open>horzVel * dt\<close>, is the new \<open>horzPos\<close>.
\<close>

theorem rk4_horzPos_binary64_differs:
  "horzPos (rk4 binary64
       \<lparr>vertPos = Fin 0, horzPos = Fin 0, vertVel = Fin 0, horzVel = Fin (1 + 1 / 2 ^ 51)\<rparr>
       (Fin 1)) = Fin (1 + 1 / 2 ^ 52) \<and>
   fadd binary64 (Fin 0) (fmul binary64 (Fin (1 + 1 / 2 ^ 51)) (Fin 1)) = Fin (1 + 1 / 2 ^ 51)"
proof -
  let ?s = "\<lparr>vertPos = Fin 0, horzPos = Fin 0, vertVel = Fin 0, horzVel = Fin (1 + 1 / 2 ^ 51)\<rparr>"
  have "horzPos (rk4 binary64 ?s (Fin 1)) =
          fadd binary64 (Fin 0) (fmul binary64 (rk4_avg binary64 (Fin (1 + 1 / 2 ^ 51))
             (Fin (1 + 1 / 2 ^ 51)) (Fin (1 + 1 / 2 ^ 51)) (Fin (1 + 1 / 2 ^ 51))) (Fin 1))"
    by (rule rk4_horizontal_binary64(2)) (use avg_step_v binary64_1 in simp_all)
  then show ?thesis
    unfolding rk4_avg_binary64_example using avg_step_6 avg_step_v by simp
qed


text \<open>
  C10, amended. For finite \<open>horzPos\<close>, \<open>horzVel\<close> and \<open>dt\<close>, one call of \<^verbatim>\<open>rk4\<close> leaves
  \<open>horzVel\<close> exactly unchanged in double and in exact arithmetic, the four stage
  velocities all being \<open>horzVel\<close> and the four stage accelerations 0; \<open>horzPos\<close> becomes
  \<open>horzPos + avg * dt\<close> with \<open>avg\<close> the weighted sum of four times \<open>horzVel\<close>, which is
  \<open>horzVel\<close> itself in exact arithmetic, so that there the change is exactly
  \<open>horzVel * dt\<close>.
\<close>

theorem rk4_horizontal_motion:
  assumes "horzVel s = Fin v" and "horzPos s = Fin x"
  shows "(binary64 v = Fin v \<and> binary64 t = Fin t \<longrightarrow>
            horzVel (rk4 binary64 s (Fin t)) = Fin v \<and>
            horzPos (rk4 binary64 s (Fin t)) =
              fadd binary64 (Fin x)
                (fmul binary64 (rk4_avg binary64 (Fin v) (Fin v) (Fin v) (Fin v)) (Fin t))) \<and>
         horzVel (rk4 exact s (Fin t)) = Fin v \<and>
         horzPos (rk4 exact s (Fin t)) = Fin (x + v * t)"
  using rk4_horizontal_binary64 [OF assms(1) _ assms(2)] rk4_horizontal_exact [OF assms]
  by blast

theorem rk4_horizontal_motion_witness:
  "horzVel (rk4 binary64
       \<lparr>vertPos = Fin 0, horzPos = Fin 0, vertVel = Fin 0, horzVel = Fin (1 + 1 / 2 ^ 51)\<rparr>
       (Fin 1)) = Fin (1 + 1 / 2 ^ 51) \<and>
   horzVel (rk4 exact
       \<lparr>vertPos = Fin 0, horzPos = Fin 0, vertVel = Fin 0, horzVel = Fin (1 + 1 / 2 ^ 51)\<rparr>
       (Fin 1)) = Fin (1 + 1 / 2 ^ 51) \<and>
   horzPos (rk4 exact
       \<lparr>vertPos = Fin 0, horzPos = Fin 0, vertVel = Fin 0, horzVel = Fin (1 + 1 / 2 ^ 51)\<rparr>
       (Fin 1)) = Fin (1 + 1 / 2 ^ 51)"
  using rk4_horizontal_motion
    [of "\<lparr>vertPos = Fin 0, horzPos = Fin 0, vertVel = Fin 0, horzVel = Fin (1 + 1 / 2 ^ 51)\<rparr>"
        "1 + 1 / 2 ^ 51" 0 1]
    avg_step_v binary64_1
  by simp

subsection \<open>A step of length zero\<close>

lemma evaluateAt_zero:
  assumes r0: "rnd 0 = Fin 0"
    and s: "vertPos s = Fin h" "horzPos s = Fin x" "vertVel s = Fin vv" "horzVel s = Fin hv"
    and r: "rnd h = Fin h" "rnd x = Fin x" "rnd vv = Fin vv" "rnd hv = Fin hv"
    and k: "is_finite (vertVel' k)" "is_finite (horzVel' k)" "is_finite (vertAcc k)"
      "is_finite (horzAcc k)"
  shows "evaluateAt rnd s (Fin 0) k = evaluate rnd s"
proof -
  obtain c1 c2 c3 c4 where
    "vertVel' k = Fin c1" "horzVel' k = Fin c2" "vertAcc k = Fin c3" "horzAcc k = Fin c4"
    using k by (cases "vertVel' k"; cases "horzVel' k"; cases "vertAcc k"; cases "horzAcc k")
      simp_all
  then show ?thesis
    by (simp add: evaluateAt_def evaluate_def computeVertAcc_def computeHorzAcc_def s r r0)
qed

lemma rk4_zero_step:
  assumes r0: "rnd 0 = Fin 0"
    and s: "vertPos s = Fin h" "horzPos s = Fin x" "vertVel s = Fin vv" "horzVel s = Fin hv"
    and r: "rnd h = Fin h" "rnd x = Fin x" "rnd vv = Fin vv" "rnd hv = Fin hv"
    and acc: "computeVertAcc rnd s = Fin acc"
    and avg: "is_finite (rk4_avg rnd (Fin vv) (Fin vv) (Fin vv) (Fin vv))"
      "is_finite (rk4_avg rnd (Fin acc) (Fin acc) (Fin acc) (Fin acc))"
      "is_finite (rk4_avg rnd (Fin hv) (Fin hv) (Fin hv) (Fin hv))"
  shows "rk4 rnd s (Fin 0) = s"
proof -
  have k1: "is_finite (vertVel' (evaluate rnd s))" "is_finite (horzVel' (evaluate rnd s))"
    "is_finite (vertAcc (evaluate rnd s))" "is_finite (horzAcc (evaluate rnd s))"
    by (simp_all add: evaluate_def s acc computeHorzAcc_def a_def)
  have e: "evaluateAt rnd s (Fin 0) (evaluate rnd s) = evaluate rnd s"
    by (rule evaluateAt_zero [OF r0 s r k1])
  obtain a1 a2 a3 where a:
    "rk4_avg rnd (Fin vv) (Fin vv) (Fin vv) (Fin vv) = Fin a1"
    "rk4_avg rnd (Fin acc) (Fin acc) (Fin acc) (Fin acc) = Fin a2"
    "rk4_avg rnd (Fin hv) (Fin hv) (Fin hv) (Fin hv) = Fin a3"
    using avg
    by (cases "rk4_avg rnd (Fin vv) (Fin vv) (Fin vv) (Fin vv)";
        cases "rk4_avg rnd (Fin acc) (Fin acc) (Fin acc) (Fin acc)";
        cases "rk4_avg rnd (Fin hv) (Fin hv) (Fin hv) (Fin hv)") simp_all
  have z: "fdiv rnd (Fin 0) (Fin 2) = Fin 0" by (simp add: r0)
  have az: "rk4_avg rnd (Fin 0) (Fin 0) (Fin 0) (Fin 0) = Fin 0"
    using r0 by (rule rk4_avg_zero)
  have "rk4 rnd s (Fin 0) =
          \<lparr>vertPos = Fin h, horzPos = Fin x, vertVel = Fin vv, horzVel = Fin hv\<rparr>"
    unfolding rk4_def Let_def z e
    by (simp add: evaluate_def s acc computeHorzAcc_def a_def a az r0 r)
  also have "\<dots> = s" using s by simp
  finally show ?thesis .
qed


lemma binary64_bounded_by:
  assumes "binary64 M = Fin M" and "\<bar>x\<bar> \<le> M"
  shows "\<exists>r. binary64 x = Fin r \<and> \<bar>r\<bar> \<le> M"
proof -
  have M: "round_fin M = M" "\<bar>M\<bar> < 2 ^ 1024"
    using assms(1) by (simp_all add: binary64_def split: if_splits)
  have "x \<le> M" "- M \<le> x" using assms(2) by linarith+
  then have "round_fin x \<le> M" "- M \<le> round_fin x"
    using round_fin_mono [of x M] round_fin_mono [of "- M" x]
    by (simp_all add: M round_fin_minus)
  then have b: "\<bar>round_fin x\<bar> \<le> M" by linarith
  then have "\<bar>round_fin x\<bar> < 2 ^ 1024" using M(2) by linarith
  with b show ?thesis by (simp add: binary64_def)
qed

text \<open>
  At every double altitude other than \<open>-R\<close> the divisor \<open>re + vertPos\<close> has magnitude at
  least \<open>1 / 2 ^ 31\<close>, and the acceleration is a finite double of magnitude at most
  \<open>2 ^ 112\<close>.
\<close>

lemma vertAcc_binary64_bounded:
  assumes s: "vertPos s = Fin h" and h: "binary64 h = Fin h" and ne: "h \<noteq> - 6371000"
  shows "\<exists>acc. computeVertAcc binary64 s = Fin acc \<and> \<bar>acc\<bar> \<le> 2 ^ 112"
proof -
  let ?c = "- (5520653160719109 / 2 ^ 49) :: real"
  have fin: "\<exists>acc. fmul binary64 (fmul binary64 (Fin ?c) (binary64 (6371000 / x)))
                                    (binary64 (6371000 / x)) = Fin acc \<and> \<bar>acc\<bar> \<le> 2 ^ 112"
    if x: "1 / 2 ^ 31 \<le> \<bar>x\<bar>" for x :: real
  proof -
    have x0: "0 < \<bar>x\<bar>" using x by (smt (verit) divide_pos_pos zero_less_numeral zero_less_power)
    have "6371000 / \<bar>x\<bar> \<le> 6371000 / (1 / 2 ^ 31)" using x by (intro divide_left_mono) simp_all
    then have "\<bar>6371000 / x\<bar> \<le> 2 powi 54" by simp
    from binary64_bounded [OF this]
    obtain y where y: "binary64 (6371000 / x) = Fin y" "\<bar>y\<bar> \<le> 2 ^ 54" by auto
    have "\<bar>?c * y\<bar> \<le> 16 * 2 ^ 54"
      unfolding abs_mult using y(2) by (intro mult_mono) simp_all
    then have "\<bar>?c * y\<bar> \<le> 2 powi 58" by simp
    from binary64_bounded [OF this]
    obtain z where z: "binary64 (?c * y) = Fin z" "\<bar>z\<bar> \<le> 2 ^ 58" by auto
    have "\<bar>z * y\<bar> \<le> 2 ^ 58 * 2 ^ 54"
      unfolding abs_mult using y(2) z(2) by (intro mult_mono) simp_all
    then have "\<bar>z * y\<bar> \<le> 2 powi 112" by simp
    from binary64_bounded [OF this]
    obtain w where w: "binary64 (z * y) = Fin w" "\<bar>w\<bar> \<le> 2 ^ 112" by auto
    show ?thesis using y(1) z(1) w by simp
  qed
  have low: "1 / 2 ^ 31 \<le> \<bar>6371000 + h\<bar>"
  proof (cases "- 3185500 \<le> h")
    case True
    then show ?thesis by simp
  next
    case False
    then have "2 ^ 21 \<le> \<bar>h\<bar>" by simp
    from double_multiple [OF h this] obtain N :: int where N: "h = of_int N / 2 ^ 31" by blast
    define M where "M = 6371000 * 2 ^ 31 + N"
    have e: "6371000 + h = of_int M / 2 ^ 31"
      unfolding N M_def by (simp add: field_simps)
    with ne have "M \<noteq> 0" by auto
    then have "1 \<le> \<bar>M\<bar>" by simp
    then have "1 \<le> \<bar>real_of_int M\<bar>" by (metis of_int_1_le_iff of_int_abs)
    then show ?thesis unfolding e by (simp add: divide_right_mono)
  qed
  have p: "binary64 (1 / 2 ^ 31) = Fin (1 / 2 ^ 31)"
    using binary64_representable [of 1 "- 31"] by (simp add: power_int_minus field_simps)
  have big: "1 / 2 ^ 31 \<le> \<bar>x\<bar>" if "binary64 (6371000 + h) = Fin x" for x
  proof (cases "0 \<le> 6371000 + h")
    case True
    with low have "1 / 2 ^ 31 \<le> 6371000 + h" by simp
    from binary64_mono [OF this] that p show ?thesis by simp
  next
    case False
    with low have "6371000 + h \<le> - (1 / 2 ^ 31)" by simp
    from binary64_mono [OF this] that binary64_minus [of "1 / 2 ^ 31"] p show ?thesis
      by simp
  qed
  show ?thesis
  proof (cases "binary64 (6371000 + h)")
    case (Fin x)
    note x = big [OF Fin]
    then have "x \<noteq> 0" by (smt (verit) divide_pos_pos zero_less_numeral zero_less_power)
    with fin [OF x] Fin show ?thesis
      by (simp add: computeVertAcc_def g_binary64 re_def s)
  next
    case PInf
    then show ?thesis
      by (simp add: computeVertAcc_def g_binary64 re_def s binary64_0)
  next
    case NInf
    then show ?thesis
      by (simp add: computeVertAcc_def g_binary64 re_def s binary64_0)
  next
    case NaN
    then show ?thesis by (simp add: binary64_def split: if_splits)
  qed
qed

lemma rk4_avg_binary64_finite:
  assumes "\<bar>c\<bar> \<le> 2 ^ 1021"
  shows "is_finite (rk4_avg binary64 (Fin c) (Fin c) (Fin c) (Fin c))"
proof -
  define P :: real where "P = 2 ^ 1021"
  have P: "2 powi 1022 = 2 * P" "2 powi 1023 = 4 * P" "2 powi 1021 = P" "0 < P"
    by (simp_all add: P_def)
  have M5: "binary64 (5 * P) = Fin (5 * P)"
    using binary64_representable [of 5 1021] by (simp add: P_def)
  have M6: "binary64 (6 * P) = Fin (6 * P)"
    using binary64_representable [of 6 1021] by (simp add: P_def)
  have c: "\<bar>c\<bar> \<le> P" using assms by (simp add: P_def)
  then have "\<bar>c + c\<bar> \<le> 2 powi 1022" unfolding P by linarith
  from binary64_bounded [OF this]
  obtain a1 where a1: "binary64 (c + c) = Fin a1" "\<bar>a1\<bar> \<le> 2 * P" unfolding P by auto
  then have "\<bar>2 * a1\<bar> \<le> 2 powi 1023" unfolding P by linarith
  from binary64_bounded [OF this]
  obtain a2 where a2: "binary64 (2 * a1) = Fin a2" "\<bar>a2\<bar> \<le> 4 * P" unfolding P by auto
  then have "\<bar>c + a2\<bar> \<le> 5 * P" using c by linarith
  from binary64_bounded_by [OF M5 this]
  obtain a3 where a3: "binary64 (c + a2) = Fin a3" "\<bar>a3\<bar> \<le> 5 * P" by auto
  then have "\<bar>a3 + c\<bar> \<le> 6 * P" using c by linarith
  from binary64_bounded_by [OF M6 this]
  obtain a4 where a4: "binary64 (a3 + c) = Fin a4" "\<bar>a4\<bar> \<le> 6 * P" by auto
  then have "\<bar>a4 / 6\<bar> \<le> 2 powi 1021" unfolding P by simp
  from binary64_bounded [OF this]
  obtain a5 where a5: "binary64 (a4 / 6) = Fin a5" by auto
  show ?thesis
    using a1(1) a2(1) a3(1) a4(1) a5 by (simp add: rk4_avg_def)
qed

lemma rk4_zero_step_binary64:
  assumes s: "vertPos s = Fin h" "horzPos s = Fin x" "vertVel s = Fin vv" "horzVel s = Fin hv"
    and d: "binary64 h = Fin h" "binary64 x = Fin x" "binary64 vv = Fin vv" "binary64 hv = Fin hv"
    and ne: "h \<noteq> - 6371000"
    and v: "\<bar>vv\<bar> \<le> 2 ^ 1021" "\<bar>hv\<bar> \<le> 2 ^ 1021"
  shows "rk4 binary64 s (Fin 0) = s"
proof -
  from vertAcc_binary64_bounded [OF s(1) d(1) ne]
  obtain acc where acc: "computeVertAcc binary64 s = Fin acc" "\<bar>acc\<bar> \<le> 2 ^ 112" by blast
  have "(2::real) ^ 112 \<le> 2 ^ 1021" by (intro power_increasing) simp_all
  with acc(2) have "\<bar>acc\<bar> \<le> 2 ^ 1021" by linarith
  then show ?thesis
    using v by (intro rk4_zero_step [OF binary64_0 s d acc(1)] rk4_avg_binary64_finite)
qed

lemma rk4_zero_step_exact:
  assumes s: "vertPos s = Fin h" "horzPos s = Fin x" "vertVel s = Fin vv" "horzVel s = Fin hv"
    and ne: "h \<noteq> - 6371000"
  shows "rk4 exact s (Fin 0) = s"
proof -
  from ne have nz: "6371000 + h \<noteq> 0" by simp
  show ?thesis
    by (rule rk4_zero_step [OF _ s _ _ _ _ vertAcc_exact [OF s(1) nz]])
       (simp_all add: exact_def rk4_avg_def)
qed


lemma rk4_avg_NaN: "rk4_avg rnd c1 NaN c3 c4 = NaN"
  by (cases c1; cases c3; cases c4) (simp_all add: rk4_avg_def)

lemma zero_step_field:
  assumes "rnd 0 = Fin 0" and "rnd y = Fin y"
  shows "fadd rnd (Fin y) (fmul rnd d (Fin 0)) = Fin y \<longleftrightarrow> is_finite d"
  using assms by (cases d) simp_all

text \<open>
  The state after a step of length 0 when the acceleration is finite: all four stages
  are the derivative at the state itself.
\<close>

lemma rk4_zero_step_form:
  assumes r0: "rnd 0 = Fin 0"
    and s: "vertPos s = Fin h" "horzPos s = Fin x" "vertVel s = Fin vv" "horzVel s = Fin hv"
    and r: "rnd h = Fin h" "rnd x = Fin x" "rnd vv = Fin vv" "rnd hv = Fin hv"
    and acc: "computeVertAcc rnd s = Fin acc"
  shows "rk4 rnd s (Fin 0) =
     \<lparr>vertPos = fadd rnd (Fin h)
                  (fmul rnd (rk4_avg rnd (Fin vv) (Fin vv) (Fin vv) (Fin vv)) (Fin 0)),
      horzPos = fadd rnd (Fin x)
                  (fmul rnd (rk4_avg rnd (Fin hv) (Fin hv) (Fin hv) (Fin hv)) (Fin 0)),
      vertVel = fadd rnd (Fin vv)
                  (fmul rnd (rk4_avg rnd (Fin acc) (Fin acc) (Fin acc) (Fin acc)) (Fin 0)),
      horzVel = Fin hv\<rparr>"
proof -
  have k1: "is_finite (vertVel' (evaluate rnd s))" "is_finite (horzVel' (evaluate rnd s))"
    "is_finite (vertAcc (evaluate rnd s))" "is_finite (horzAcc (evaluate rnd s))"
    by (simp_all add: evaluate_def s acc computeHorzAcc_def a_def)
  have e: "evaluateAt rnd s (Fin 0) (evaluate rnd s) = evaluate rnd s"
    by (rule evaluateAt_zero [OF r0 s r k1])
  have z: "fdiv rnd (Fin 0) (Fin 2) = Fin 0" by (simp add: r0)
  have az: "rk4_avg rnd (Fin 0) (Fin 0) (Fin 0) (Fin 0) = Fin 0"
    using r0 by (rule rk4_avg_zero)
  show ?thesis
    unfolding rk4_def Let_def z e
    by (simp add: evaluate_def s acc computeHorzAcc_def a_def az r0 r)
qed

text \<open>
  At the altitude \<open>-R\<close> the divisor \<open>re + vertPos\<close> is zero, the acceleration is \<open>-\<infinity>\<close>,
  and \<open>-\<infinity> * 0\<close> is NaN: a step of length 0 turns \<open>vertPos\<close> into NaN. (The loop never
  calls \<^verbatim>\<open>rk4\<close> there, its test wants \<open>vertPos \<ge> 0\<close>.)
\<close>

lemma rk4_zero_step_at_minus_R:
  assumes r0: "rnd 0 = Fin 0" and g: "g rnd = Fin c" "c < 0"
    and s: "vertPos s = Fin (- 6371000)" "vertVel s = Fin vv"
  shows "vertPos (rk4 rnd s (Fin 0)) = NaN"
proof -
  have acc: "computeVertAcc rnd s = NInf"
    using g(2) by (simp add: computeVertAcc_def g(1) re_def s r0)
  have "vertVel' (evaluateAt rnd s (fdiv rnd (Fin 0) (Fin 2)) (evaluate rnd s)) = NaN"
    by (simp add: evaluateAt_def evaluate_def acc s r0 Let_def)
  then show ?thesis
    by (simp add: rk4_def Let_def rk4_avg_NaN s)
qed

lemma rk4_zero_step_binary64_iff:
  assumes s: "vertPos s = Fin h" "horzPos s = Fin x" "vertVel s = Fin vv" "horzVel s = Fin hv"
    and d: "binary64 h = Fin h" "binary64 x = Fin x" "binary64 vv = Fin vv" "binary64 hv = Fin hv"
  shows "rk4 binary64 s (Fin 0) = s \<longleftrightarrow>
           h \<noteq> - 6371000 \<and>
           is_finite (rk4_avg binary64 (Fin vv) (Fin vv) (Fin vv) (Fin vv)) \<and>
           is_finite (rk4_avg binary64 (Fin hv) (Fin hv) (Fin hv) (Fin hv))"
proof (cases "h = - 6371000")
  case True
  have "- (5520653160719109 / 2 ^ 49) < (0::real)" by simp
  from rk4_zero_step_at_minus_R [OF binary64_0 g_binary64 this s(1) [unfolded True] s(3)]
  have "rk4 binary64 s (Fin 0) \<noteq> s" using s(1) by auto
  with True show ?thesis by simp
next
  case False
  from vertAcc_binary64_bounded [OF s(1) d(1) False]
  obtain acc where acc: "computeVertAcc binary64 s = Fin acc" "\<bar>acc\<bar> \<le> 2 ^ 112" by blast
  have "(2::real) ^ 112 \<le> 2 ^ 1021" by (intro power_increasing) simp_all
  with acc(2) have "\<bar>acc\<bar> \<le> 2 ^ 1021" by linarith
  then have fa: "is_finite (rk4_avg binary64 (Fin acc) (Fin acc) (Fin acc) (Fin acc))"
    by (rule rk4_avg_binary64_finite)
  have eq: "s = \<lparr>vertPos = Fin h, horzPos = Fin x, vertVel = Fin vv, horzVel = Fin hv\<rparr>"
    using s by simp
  have "rk4 binary64 s (Fin 0) = s \<longleftrightarrow>
      fadd binary64 (Fin h)
        (fmul binary64 (rk4_avg binary64 (Fin vv) (Fin vv) (Fin vv) (Fin vv)) (Fin 0)) = Fin h \<and>
      fadd binary64 (Fin x)
        (fmul binary64 (rk4_avg binary64 (Fin hv) (Fin hv) (Fin hv) (Fin hv)) (Fin 0)) = Fin x \<and>
      fadd binary64 (Fin vv)
        (fmul binary64 (rk4_avg binary64 (Fin acc) (Fin acc) (Fin acc) (Fin acc)) (Fin 0)) = Fin vv"
    unfolding rk4_zero_step_form [OF binary64_0 s d acc(1)]
    by (subst eq) simp
  then show ?thesis
    using False fa
    by (simp add: zero_step_field [OF binary64_0 d(1)] zero_step_field [OF binary64_0 d(2)]
        zero_step_field [OF binary64_0 d(3)])
qed

lemma rk4_zero_step_exact_iff:
  assumes s: "vertPos s = Fin h" "horzPos s = Fin x" "vertVel s = Fin vv" "horzVel s = Fin hv"
  shows "rk4 exact s (Fin 0) = s \<longleftrightarrow> h \<noteq> - 6371000"
proof (cases "h = - 6371000")
  case True
  have e0: "exact 0 = Fin 0" by (simp add: exact_def)
  have g: "g exact = Fin (- 9.80665)" by (simp add: g_def exact_def)
  have "- 9.80665 < (0::real)" by simp
  from rk4_zero_step_at_minus_R [OF e0 g this s(1) [unfolded True] s(3)]
  have "rk4 exact s (Fin 0) \<noteq> s" using s(1) by auto
  with True show ?thesis by simp
next
  case False
  with rk4_zero_step_exact [OF s] show ?thesis by simp
qed

lemma binary64_overflow: "binary64 (2 ^ 1024) = PInf"
  using round_fin_representable [of 1 1024] by (simp add: binary64_def)

lemma rk4_zero_step_overflowing:
  assumes v: "binary64 V = Fin V" and v2: "binary64 (V + V) = Fin W"
    and v4: "binary64 (2 * W) = PInf"
  shows "rk4 binary64 \<lparr>vertPos = Fin 0, horzPos = Fin 0, vertVel = Fin V, horzVel = Fin 0\<rparr>
           (Fin 0)
         = \<lparr>vertPos = NaN, horzPos = Fin 0, vertVel = Fin V, horzVel = Fin 0\<rparr>"
proof -
  let ?s = "\<lparr>vertPos = Fin 0, horzPos = Fin 0, vertVel = Fin V, horzVel = Fin 0\<rparr>"
  let ?g = "- (5520653160719109 / 2 ^ 49) :: real"
  have avgV: "rk4_avg binary64 (Fin V) (Fin V) (Fin V) (Fin V) = PInf"
    using v2 v4 by (simp add: rk4_avg_def)
  have acc: "computeVertAcc binary64 ?s = Fin ?g"
    by (rule vertAcc_binary64_sea_level)
  have "\<bar>?g\<bar> \<le> 2 ^ 4" by simp
  also have "(2::real) ^ 4 \<le> 2 ^ 1021" by (intro power_increasing) simp_all
  finally have "is_finite (rk4_avg binary64 (Fin ?g) (Fin ?g) (Fin ?g) (Fin ?g))"
    by (rule rk4_avg_binary64_finite)
  then obtain m where avgA: "rk4_avg binary64 (Fin ?g) (Fin ?g) (Fin ?g) (Fin ?g) = Fin m"
    by (cases "rk4_avg binary64 (Fin ?g) (Fin ?g) (Fin ?g) (Fin ?g)") simp_all
  have k1: "evaluate binary64 ?s =
      \<lparr>vertVel' = Fin V, horzVel' = Fin 0, vertAcc = Fin ?g, horzAcc = Fin 0\<rparr>"
    unfolding evaluate_def acc by (simp add: computeHorzAcc_def a_def)
  have "evaluateAt binary64 ?s (Fin 0) (evaluate binary64 ?s) = evaluate binary64 ?s"
    by (rule evaluateAt_zero [of binary64 _ 0 0 V 0])
       (simp_all add: k1 binary64_0 v)
  then have e: "evaluateAt binary64 ?s (Fin 0)
        \<lparr>vertVel' = Fin V, horzVel' = Fin 0, vertAcc = Fin ?g, horzAcc = Fin 0\<rparr>
      = \<lparr>vertVel' = Fin V, horzVel' = Fin 0, vertAcc = Fin ?g, horzAcc = Fin 0\<rparr>"
    unfolding k1 .
  have z: "fdiv binary64 (Fin 0) (Fin 2) = Fin 0" by (simp add: binary64_0)
  have az: "rk4_avg binary64 (Fin 0) (Fin 0) (Fin 0) (Fin 0) = Fin 0"
    using binary64_0 by (rule rk4_avg_zero)
  show ?thesis
    unfolding rk4_def Let_def z k1 e
    using avgV avgA az v by (simp add: binary64_0)
qed

text \<open>
  C7, as stated, fails in double arithmetic on a state the loop passes to \<^verbatim>\<open>rk4\<close>: at
  altitude 0 with vertical velocity \<open>2 ^ 1022\<close> (the loop test holds there) the weighted
  sum of the stage velocities overflows to \<open>\<infinity>\<close>, and \<open>\<infinity> * 0\<close> is NaN, so a step of
  length 0 turns \<open>vertPos\<close> into NaN.
\<close>

theorem rk4_zero_step_overflow:
  "continue (Fin 10) (Fin 0)
      \<lparr>vertPos = Fin 0, horzPos = Fin 0, vertVel = Fin (2 ^ 1022), horzVel = Fin 0\<rparr> \<and>
   rk4 binary64
      \<lparr>vertPos = Fin 0, horzPos = Fin 0, vertVel = Fin (2 ^ 1022), horzVel = Fin 0\<rparr> (Fin 0)
     = \<lparr>vertPos = NaN, horzPos = Fin 0, vertVel = Fin (2 ^ 1022), horzVel = Fin 0\<rparr>"
proof -
  have "binary64 (2 ^ 1022) = Fin (2 ^ 1022)"
    using binary64_representable [of 1 1022] by simp
  moreover have "binary64 (2 ^ 1022 + 2 ^ 1022) = Fin (2 ^ 1023)"
    using binary64_representable [of 1 1023] by simp
  moreover have "binary64 (2 * 2 ^ 1023) = PInf"
    using binary64_overflow by simp
  ultimately have "rk4 binary64
      \<lparr>vertPos = Fin 0, horzPos = Fin 0, vertVel = Fin (2 ^ 1022), horzVel = Fin 0\<rparr> (Fin 0)
     = \<lparr>vertPos = NaN, horzPos = Fin 0, vertVel = Fin (2 ^ 1022), horzVel = Fin 0\<rparr>"
    by (rule rk4_zero_step_overflowing)
  then show ?thesis by (simp add: continue_def)
qed

text \<open>
  C7, amended. For a state of doubles, a step of length 0 leaves all four fields
  unchanged in double arithmetic if and only if \<open>vertPos \<noteq> -R\<close> and the weighted sums
  \<open>(v + 2 * (v + v) + v) / 6\<close> of the vertical and of the horizontal velocity do not
  overflow; they do not when both velocities have magnitude at most \<open>2 ^ 1021\<close>. For a
  state of finite numbers in exact arithmetic it does so if and only if \<open>vertPos \<noteq> -R\<close>.
\<close>

theorem rk4_zero_step_unchanged:
  assumes "vertPos s = Fin h" and "horzPos s = Fin x"
    and "vertVel s = Fin vv" and "horzVel s = Fin hv"
  shows "(binary64 h = Fin h \<and> binary64 x = Fin x \<and> binary64 vv = Fin vv \<and>
          binary64 hv = Fin hv \<longrightarrow>
            (rk4 binary64 s (Fin 0) = s \<longleftrightarrow>
               h \<noteq> - 6371000 \<and>
               is_finite (rk4_avg binary64 (Fin vv) (Fin vv) (Fin vv) (Fin vv)) \<and>
               is_finite (rk4_avg binary64 (Fin hv) (Fin hv) (Fin hv) (Fin hv))) \<and>
            (h \<noteq> - 6371000 \<and> \<bar>vv\<bar> \<le> 2 ^ 1021 \<and> \<bar>hv\<bar> \<le> 2 ^ 1021
               \<longrightarrow> rk4 binary64 s (Fin 0) = s)) \<and>
         (rk4 exact s (Fin 0) = s \<longleftrightarrow> h \<noteq> - 6371000)"
  using rk4_zero_step_binary64_iff [OF assms] rk4_zero_step_binary64 [OF assms]
    rk4_zero_step_exact_iff [OF assms]
  by blast

theorem rk4_zero_step_witness:
  "rk4 binary64 \<lparr>vertPos = Fin 100, horzPos = Fin 3, vertVel = Fin 20, horzVel = Fin 5\<rparr> (Fin 0)
     = \<lparr>vertPos = Fin 100, horzPos = Fin 3, vertVel = Fin 20, horzVel = Fin 5\<rparr> \<and>
   rk4 binary64 \<lparr>vertPos = Fin (- 7000000), horzPos = Fin 3, vertVel = Fin (- (2 ^ 1021)),
                  horzVel = Fin 5\<rparr> (Fin 0)
     = \<lparr>vertPos = Fin (- 7000000), horzPos = Fin 3, vertVel = Fin (- (2 ^ 1021)),
        horzVel = Fin 5\<rparr> \<and>
   rk4 exact \<lparr>vertPos = Fin 100, horzPos = Fin 3, vertVel = Fin 20, horzVel = Fin 5\<rparr> (Fin 0)
     = \<lparr>vertPos = Fin 100, horzPos = Fin 3, vertVel = Fin 20, horzVel = Fin 5\<rparr> \<and>
   rk4 exact \<lparr>vertPos = Fin (- 6371000), horzPos = Fin 3, vertVel = Fin 20, horzVel = Fin 5\<rparr>
       (Fin 0)
     \<noteq> \<lparr>vertPos = Fin (- 6371000), horzPos = Fin 3, vertVel = Fin 20, horzVel = Fin 5\<rparr>"
proof -
  have m: "binary64 (- (2 ^ 1021)) = Fin (- (2 ^ 1021))"
    using binary64_representable [of "- 1" 1021] by simp
  show ?thesis
    using rk4_zero_step_unchanged
      [of "\<lparr>vertPos = Fin 100, horzPos = Fin 3, vertVel = Fin 20, horzVel = Fin 5\<rparr>" 100 3 20 5]
      rk4_zero_step_unchanged
      [of "\<lparr>vertPos = Fin (- 7000000), horzPos = Fin 3, vertVel = Fin (- (2 ^ 1021)),
            horzVel = Fin 5\<rparr>" "- 7000000" 3 "- (2 ^ 1021)" 5]
      rk4_zero_step_unchanged
      [of "\<lparr>vertPos = Fin (- 6371000), horzPos = Fin 3, vertVel = Fin 20, horzVel = Fin 5\<rparr>"
          "- 6371000" 3 20 5]
      binary64_int [of 100] binary64_int [of 3] binary64_int [of 20] binary64_int [of 5]
      binary64_int [of "- 7000000"] m
    by simp
qed


section \<open>The concrete scenario\<close>

subsection \<open>Sine and cosine of the firing angle\<close>












subsection \<open>One step in exact arithmetic\<close>













section \<open>The driving loop\<close>

lemma fless_not_fge: "fless x y \<Longrightarrow> \<not> fge x y"
  by (cases x; cases y) simp_all

lemma fge_not_fless: "fge x y \<Longrightarrow> \<not> fless x y"
  by (cases x; cases y) simp_all

lemma reached_0: "reached rnd dt t p 0 = (t, p)"
  by (simp add: reached_def)

lemma reached_Suc: "reached rnd dt t p (Suc k) = iteration rnd dt (reached rnd dt t p k)"
  by (simp add: reached_def)

lemma reached_shift:
  "reached rnd dt t p (Suc k) = reached rnd dt (fadd rnd t dt) (rk4 rnd p dt) k"
  by (simp add: reached_def funpow_swap1 iteration_def)

text \<open>What a finished run is: its length, the test along the way, its records.\<close>

lemma drive_Some_iff:
  "drive rnd fuel dt finalT t p = Some out \<longleftrightarrow>
     length out \<le> fuel \<and>
     (\<forall>i < length out.
        continue finalT (fst (reached rnd dt t p i)) (snd (reached rnd dt t p i)) \<and>
        out ! i = reached rnd dt t p (Suc i)) \<and>
     \<not> continue finalT (fst (reached rnd dt t p (length out)))
                         (snd (reached rnd dt t p (length out)))"
proof (induction fuel arbitrary: t p out)
  case 0
  show ?case by (auto simp: reached_0)
next
  case (Suc n)
  show ?case
  proof (cases "continue finalT t p")
    case False
    have "out = []" if "\<forall>i < length out.
        continue finalT (fst (reached rnd dt t p i)) (snd (reached rnd dt t p i)) \<and>
        out ! i = reached rnd dt t p (Suc i)"
    proof (rule ccontr)
      assume "out \<noteq> []"
      then have "0 < length out" by simp
      with that have "continue finalT (fst (reached rnd dt t p 0)) (snd (reached rnd dt t p 0))"
        by blast
      with False show False by (simp add: reached_0)
    qed
    with False show ?thesis by (auto simp: reached_0)
  next
    case True
    let ?t = "fadd rnd t dt" and ?p = "rk4 rnd p dt"
    show ?thesis
    proof
      assume "drive rnd (Suc n) dt finalT t p = Some out"
      with True obtain rest where out: "out = (?t, ?p) # rest"
        and rest: "drive rnd n dt finalT ?t ?p = Some rest"
        by (auto simp: Let_def)
      note IH = Suc.IH [of ?t ?p rest, THEN iffD1, OF rest]
      show "length out \<le> Suc n \<and>
        (\<forall>i < length out.
          continue finalT (fst (reached rnd dt t p i)) (snd (reached rnd dt t p i)) \<and>
          out ! i = reached rnd dt t p (Suc i)) \<and>
        \<not> continue finalT (fst (reached rnd dt t p (length out)))
                            (snd (reached rnd dt t p (length out)))"
      proof (intro conjI allI impI)
        show "length out \<le> Suc n" using IH out by simp
      next
        fix i assume i: "i < length out"
        show "continue finalT (fst (reached rnd dt t p i)) (snd (reached rnd dt t p i))"
          using IH i True out by (cases i) (auto simp: reached_0 reached_shift)
        show "out ! i = reached rnd dt t p (Suc i)"
          using IH i out by (cases i) (auto simp: reached_0 reached_shift)
      next
        show "\<not> continue finalT (fst (reached rnd dt t p (length out)))
                            (snd (reached rnd dt t p (length out)))"
          using IH out by (simp add: reached_shift)
      qed
    next
      assume r: "length out \<le> Suc n \<and>
        (\<forall>i < length out.
          continue finalT (fst (reached rnd dt t p i)) (snd (reached rnd dt t p i)) \<and>
          out ! i = reached rnd dt t p (Suc i)) \<and>
        \<not> continue finalT (fst (reached rnd dt t p (length out)))
                            (snd (reached rnd dt t p (length out)))"
      have "out \<noteq> []" using r True by (auto simp: reached_0)
      then obtain x rest where out: "out = x # rest" by (cases out) auto
      have x: "x = (?t, ?p)"
        using r out by (auto simp: reached_shift reached_0 dest: spec [of _ 0])
      have "length rest \<le> n" using r out by simp
      moreover have "continue finalT (fst (reached rnd dt ?t ?p i)) (snd (reached rnd dt ?t ?p i)) \<and>
          rest ! i = reached rnd dt ?t ?p (Suc i)" if "i < length rest" for i
      proof -
        from that have "Suc i < length out" using out by simp
        with r have "continue finalT (fst (reached rnd dt t p (Suc i)))
                        (snd (reached rnd dt t p (Suc i))) \<and>
                     out ! Suc i = reached rnd dt t p (Suc (Suc i))" by blast
        then show ?thesis using out by (simp add: reached_shift)
      qed
      moreover have "\<not> continue finalT (fst (reached rnd dt ?t ?p (length rest)))
                            (snd (reached rnd dt ?t ?p (length rest)))"
        using r out by (simp add: reached_shift)
      ultimately have "drive rnd n dt finalT ?t ?p = Some rest"
        using Suc.IH [of ?t ?p rest] by blast
      with True out x show "drive rnd (Suc n) dt finalT t p = Some out"
        by (simp add: Let_def)
    qed
  qed
qed

text \<open>The fuel runs out exactly when the test holds at every step it allows.\<close>

lemma drive_None_iff:
  "drive rnd fuel dt finalT t p = None \<longleftrightarrow>
     (\<forall>k \<le> fuel. continue finalT (fst (reached rnd dt t p k)) (snd (reached rnd dt t p k)))"
proof (induction fuel arbitrary: t p)
  case 0
  show ?case by (simp add: reached_0)
next
  case (Suc n)
  show ?case
  proof (cases "continue finalT t p")
    case False
    then have "\<not> continue finalT (fst (reached rnd dt t p 0)) (snd (reached rnd dt t p 0))"
      by (simp add: reached_0)
    then have "\<not> (\<forall>k \<le> Suc n. continue finalT (fst (reached rnd dt t p k))
                                               (snd (reached rnd dt t p k)))"
      by blast
    with False show ?thesis by simp
  next
    case True
    have "(\<forall>k \<le> Suc n. continue finalT (fst (reached rnd dt t p k)) (snd (reached rnd dt t p k)))
        \<longleftrightarrow> (\<forall>k \<le> n. continue finalT (fst (reached rnd dt t p (Suc k)))
                                        (snd (reached rnd dt t p (Suc k))))"
    proof
      assume a: "\<forall>k \<le> Suc n. continue finalT (fst (reached rnd dt t p k))
                                              (snd (reached rnd dt t p k))"
      show "\<forall>k \<le> n. continue finalT (fst (reached rnd dt t p (Suc k)))
                                      (snd (reached rnd dt t p (Suc k)))"
        using a by auto
    next
      assume a: "\<forall>k \<le> n. continue finalT (fst (reached rnd dt t p (Suc k)))
                                          (snd (reached rnd dt t p (Suc k)))"
      show "\<forall>k \<le> Suc n. continue finalT (fst (reached rnd dt t p k))
                                          (snd (reached rnd dt t p k))"
      proof (intro allI impI)
        fix k assume "k \<le> Suc n"
        then show "continue finalT (fst (reached rnd dt t p k)) (snd (reached rnd dt t p k))"
          using a True by (cases k) (auto simp: reached_0)
      qed
    qed
    with True Suc.IH [of "fadd rnd t dt" "rk4 rnd p dt"] show ?thesis
      by (simp add: Let_def reached_shift)
  qed
qed


text \<open>
  In exact arithmetic the time grows by the positive time step in every iteration, so
  the loop ends: with enough fuel the run is \<open>Some\<close> list.
\<close>

lemma drive_exact_ends:
  assumes "0 < d" and "T - t \<le> real n * d"
  shows "\<exists>out. drive exact n (Fin d) (Fin T) (Fin t) p = Some out"
  using assms(2)
proof (induction n arbitrary: t p)
  case 0
  then have "\<not> t < T" by simp
  then show ?case by (simp add: continue_def)
next
  case (Suc n)
  show ?case
  proof (cases "continue (Fin T) (Fin t) p")
    case False
    then show ?thesis by simp
  next
    case True
    have "T - (t + d) \<le> real n * d" using Suc.prems by (simp add: algebra_simps)
    moreover have "fadd exact (Fin t) (Fin d) = Fin (t + d)" by (simp add: exact_def)
    ultimately show ?thesis
      using Suc.IH [of "t + d" "rk4 exact p (Fin d)"] True by (auto simp: Let_def)
  qed
qed

lemma drive_exact_terminates:
  assumes "0 < d"
  shows "\<exists>fuel out. drive exact fuel (Fin d) (Fin T) (Fin t) p = Some out"
proof -
  obtain n :: nat where "(T - t) / d \<le> real n" using real_arch_simple by blast
  then have "T - t \<le> real n * d" using assms by (simp add: pos_divide_le_eq)
  from drive_exact_ends [OF assms this] show ?thesis by blast
qed

text \<open>
  C9. In either arithmetic, with \<open>reached k\<close> the time and state after \<open>k\<close> passes of the
  loop body (each pass one call of \<^verbatim>\<open>rk4\<close> and one addition to the time): the loop makes
  exactly the steps \<open>out\<close> if and only if the test \<open>currentTime < finalTime\<close> and
  \<open>vertPos >= 0\<close> holds at each of the first \<open>length out\<close> reached pairs, the records
  are the reached pairs that follow them, and the test fails at the pair after the last
  record; the fuel runs out if and only if the test holds at every pair the fuel allows,
  that is, the loop is still stepping; as soon as at some pair \<open>k\<close> the time has reached
  \<open>finalTime\<close> or \<open>vertPos\<close> is negative, the loop ends after at most \<open>k\<close> steps; and the
  loop ends for some amount of fuel if and only if the test fails at some reached pair.
\<close>

theorem drive_steps_while_continue:
  "(drive rnd fuel dt finalT t p = Some out \<longleftrightarrow>
      length out \<le> fuel \<and>
      (\<forall>i < length out.
         continue finalT (fst (reached rnd dt t p i)) (snd (reached rnd dt t p i)) \<and>
         out ! i = reached rnd dt t p (Suc i)) \<and>
      \<not> continue finalT (fst (reached rnd dt t p (length out)))
                          (snd (reached rnd dt t p (length out)))) \<and>
   (drive rnd fuel dt finalT t p = None \<longleftrightarrow>
      (\<forall>k \<le> fuel. continue finalT (fst (reached rnd dt t p k)) (snd (reached rnd dt t p k)))) \<and>
   (\<forall>k \<le> fuel.
      fge (fst (reached rnd dt t p k)) finalT \<or>
      fless (vertPos (snd (reached rnd dt t p k))) (Fin 0) \<longrightarrow>
      (\<exists>steps. drive rnd fuel dt finalT t p = Some steps \<and> length steps \<le> k)) \<and>
   ((\<exists>n steps. drive rnd n dt finalT t p = Some steps) \<longleftrightarrow>
      (\<exists>k. \<not> continue finalT (fst (reached rnd dt t p k)) (snd (reached rnd dt t p k))))"
proof (intro conjI allI impI)
  show "drive rnd fuel dt finalT t p = Some out \<longleftrightarrow>
      length out \<le> fuel \<and>
      (\<forall>i < length out.
         continue finalT (fst (reached rnd dt t p i)) (snd (reached rnd dt t p i)) \<and>
         out ! i = reached rnd dt t p (Suc i)) \<and>
      \<not> continue finalT (fst (reached rnd dt t p (length out)))
                          (snd (reached rnd dt t p (length out)))"
    by (rule drive_Some_iff)
next
  show "drive rnd fuel dt finalT t p = None \<longleftrightarrow>
      (\<forall>k \<le> fuel. continue finalT (fst (reached rnd dt t p k)) (snd (reached rnd dt t p k)))"
    by (rule drive_None_iff)
next
  fix k
  assume k: "k \<le> fuel"
    and stop: "fge (fst (reached rnd dt t p k)) finalT \<or>
               fless (vertPos (snd (reached rnd dt t p k))) (Fin 0)"
  from stop have n: "\<not> continue finalT (fst (reached rnd dt t p k)) (snd (reached rnd dt t p k))"
    by (auto simp: continue_def dest: fge_not_fless fless_not_fge)
  with k have "drive rnd fuel dt finalT t p \<noteq> None"
    unfolding drive_None_iff by blast
  then obtain steps where s: "drive rnd fuel dt finalT t p = Some steps" by auto
  have "length steps \<le> k"
  proof (rule ccontr)
    assume "\<not> length steps \<le> k"
    then have "k < length steps" by simp
    with s [unfolded drive_Some_iff] n show False by blast
  qed
  with s show "\<exists>steps. drive rnd fuel dt finalT t p = Some steps \<and> length steps \<le> k"
    by blast
next
  show "(\<exists>n steps. drive rnd n dt finalT t p = Some steps) \<longleftrightarrow>
      (\<exists>k. \<not> continue finalT (fst (reached rnd dt t p k)) (snd (reached rnd dt t p k)))"
  proof
    assume "\<exists>n steps. drive rnd n dt finalT t p = Some steps"
    then obtain n steps where "drive rnd n dt finalT t p = Some steps" by blast
    then show "\<exists>k. \<not> continue finalT (fst (reached rnd dt t p k)) (snd (reached rnd dt t p k))"
      unfolding drive_Some_iff by blast
  next
    assume "\<exists>k. \<not> continue finalT (fst (reached rnd dt t p k)) (snd (reached rnd dt t p k))"
    then obtain k where
      "\<not> continue finalT (fst (reached rnd dt t p k)) (snd (reached rnd dt t p k))" by blast
    then have "drive rnd k dt finalT t p \<noteq> None"
      unfolding drive_None_iff by blast
    then show "\<exists>n steps. drive rnd n dt finalT t p = Some steps" by auto
  qed
qed


theorem drive_steps_witness:
  "drive exact 5 (Fin 1) (Fin 2) (Fin 0)
      \<lparr>vertPos = Fin 0, horzPos = Fin 0, vertVel = Fin 10, horzVel = Fin 3\<rparr>
    = Some [(Fin 1, rk4 exact
                \<lparr>vertPos = Fin 0, horzPos = Fin 0, vertVel = Fin 10, horzVel = Fin 3\<rparr> (Fin 1)),
            (Fin 2, rk4 exact (rk4 exact
                \<lparr>vertPos = Fin 0, horzPos = Fin 0, vertVel = Fin 10, horzVel = Fin 3\<rparr> (Fin 1))
                (Fin 1))] \<and>
   drive exact 5 (Fin 1) (Fin 10) (Fin 0)
      \<lparr>vertPos = Fin 4, horzPos = Fin 0, vertVel = Fin 0, horzVel = Fin 0\<rparr>
    = Some [(Fin 1, rk4 exact
                \<lparr>vertPos = Fin 4, horzPos = Fin 0, vertVel = Fin 0, horzVel = Fin 0\<rparr> (Fin 1))] \<and>
   fless (vertPos (rk4 exact
      \<lparr>vertPos = Fin 4, horzPos = Fin 0, vertVel = Fin 0, horzVel = Fin 0\<rparr> (Fin 1))) (Fin 0) \<and>
   drive binary64 5 (Fin 0) (Fin 10) (Fin 0)
      \<lparr>vertPos = Fin 100, horzPos = Fin 3, vertVel = Fin 20, horzVel = Fin 5\<rparr> = None"
proof (intro conjI)
  let ?p = "\<lparr>vertPos = Fin 0, horzPos = Fin 0, vertVel = Fin 10, horzVel = Fin 3\<rparr>"
  let ?q = "\<lparr>vertPos = Fin 4, horzPos = Fin 0, vertVel = Fin 0, horzVel = Fin 0\<rparr>"
  let ?z = "\<lparr>vertPos = Fin 100, horzPos = Fin 3, vertVel = Fin 20, horzVel = Fin 5\<rparr>"
  have up: "fge (vertPos (rk4 exact ?p (Fin 1))) (Fin 0)"
    by (simp add: rk4_def evaluate_def evaluateAt_def computeVertAcc_def
        computeHorzAcc_def rk4_avg_def g_def re_def a_def exact_def Let_def)
  show down: "fless (vertPos (rk4 exact ?q (Fin 1))) (Fin 0)"
    by (simp add: rk4_def evaluate_def evaluateAt_def computeVertAcc_def
        computeHorzAcc_def rk4_avg_def g_def re_def a_def exact_def Let_def)
  have r: "reached exact (Fin 1) (Fin 0) s 0 = (Fin 0, s)"
    "reached exact (Fin 1) (Fin 0) s (Suc 0) = (Fin 1, rk4 exact s (Fin 1))"
    "reached exact (Fin 1) (Fin 0) s (Suc (Suc 0)) = (Fin 2, rk4 exact (rk4 exact s (Fin 1)) (Fin 1))"
    for s
    by (simp_all add: reached_def iteration_def exact_def)
  show "drive exact 5 (Fin 1) (Fin 2) (Fin 0) ?p
    = Some [(Fin 1, rk4 exact ?p (Fin 1)), (Fin 2, rk4 exact (rk4 exact ?p (Fin 1)) (Fin 1))]"
    unfolding drive_steps_while_continue [THEN conjunct1]
    using up by (simp add: less_Suc_eq r continue_def numeral_2_eq_2)
  show "drive exact 5 (Fin 1) (Fin 10) (Fin 0) ?q = Some [(Fin 1, rk4 exact ?q (Fin 1))]"
    unfolding drive_steps_while_continue [THEN conjunct1]
    using down by (auto simp: r continue_def dest: fless_not_fge)
  have still: "reached binary64 (Fin 0) (Fin 0) ?z k = (Fin 0, ?z)" for k
  proof (induction k)
    case 0
    show ?case by (simp add: reached_def)
  next
    case (Suc k)
    have "rk4 binary64 ?z (Fin 0) = ?z"
      using binary64_int [of 100] binary64_int [of 3] binary64_int [of 20] binary64_int [of 5]
      by (intro rk4_zero_step_binary64 [of _ 100 3 20 5]) simp_all
    with Suc show ?case by (simp add: reached_Suc iteration_def binary64_0)
  qed
  show "drive binary64 5 (Fin 0) (Fin 10) (Fin 0) ?z = None"
    unfolding drive_steps_while_continue [THEN conjunct2, THEN conjunct1] still
    by (simp add: continue_def)
qed


section \<open>Input acquisition\<close>

lemma prompt_accepted:
  "prompt rejected cin = Some (x, rest) \<Longrightarrow> \<exists>r. x = Fin r \<and> \<not> rejected (Fin r)"
proof (induction cin)
  case Nil
  then show ?case by simp
next
  case (Cons c cin)
  then show ?case by (cases c) (auto split: if_splits)
qed

text \<open>
  The prompting path of \<^verbatim>\<open>main\<close> hands on a firing angle only when it lies in
  \<open>[0, 90]\<close>.
\<close>

lemma prompted_angle_in_range:
  assumes "length argv \<noteq> 5" and "acquire argv cin = Some ps"
  shows "\<exists>x. firingAngle ps = Fin x \<and> 0 \<le> x \<and> x \<le> 90"
proof -
  from assms obtain cin1 cin2 where
    "prompt (\<lambda>x. fless x (Fin 0) \<or> fless (Fin 90) x) cin1 = Some (firingAngle ps, cin2)"
    by (auto simp: acquire_def split: option.splits)
  from prompt_accepted [OF this] show ?thesis by auto
qed

text \<open>
  C8. The command-line path of \<^verbatim>\<open>main\<close> does not check the firing angle: with the
  arguments \<^verbatim>\<open>0 100 135 0.5 10\<close> the angle 135 is handed on as it is, the loop test
  passes on the state built from it, and \<^verbatim>\<open>rk4\<close> is called on that state.
\<close>

theorem cmdline_angle_unchecked:
  "acquire [Fin 0, Fin 100, Fin 135, Fin (1/2), Fin 10] cin =
     Some \<lparr> initAlt = Fin 0, initVel = Fin 100, firingAngle = Fin 135,
            deltaTime = Fin (1/2), finalTime = Fin 10 \<rparr> \<and>
   continue (Fin 10) (Fin 0)
     (init_state rnd \<lparr> initAlt = Fin 0, initVel = Fin 100, firingAngle = Fin 135,
                       deltaTime = Fin (1/2), finalTime = Fin 10 \<rparr>)"
  by (simp add: acquire_def continue_def init_state_def Let_def)


end
